theory Spec2Isabelle
  imports Complex_Main "HOL-Library.Product_Lexorder" "HOL-Library.AList"
    "HOL-Library.Char_ord" "HOL-Library.List_Lexorder"
begin

section \<open>The service and the user as an explicit world\<close>

text \<open>
  The manager talks to the paperless-ngx service through \<^verbatim>\<open>requests\<close> and to the
  user through \<^verbatim>\<open>input()\<close>. Both are made explicit: every interaction is an
  \<open>event\<close> appended to a history, and the world answers an interaction as a function
  of the history up to and including that interaction. This is the most general
  deterministic environment: a mock that replies from a script is one instance.

  \<^item> \<open>BulkEdit ds t\<close>: POST of \<^verbatim>\<open>{"documents": ds, "method": "set_correspondent",
    "parameters": {"correspondent": t}}\<close> to \<^verbatim>\<open>/api/documents/bulk_edit/\<close> with
    \<^verbatim>\<open>timeout=60\<close>, followed by \<^verbatim>\<open>raise_for_status()\<close>. The answer is \<open>Ok\<close>,
    \<open>Timeout\<close> (\<^verbatim>\<open>requests.exceptions.Timeout\<close>) or \<open>RequestError\<close> (any other
    \<^verbatim>\<open>RequestException\<close>).
  \<^item> \<open>ListDocuments c\<close>: the paginated GET of the documents of correspondent \<open>c\<close>. The
    answer is the finite chain of pages the successive GETs receive; a page is the list of
    document ids of its \<^verbatim>\<open>results\<close>, or a request failure.
  \<^item> \<open>Delete c\<close>: DELETE of correspondent \<open>c\<close>; the answer tells whether it succeeded.
  \<^item> \<open>Input\<close>: one line read from the user.
\<close>

datatype response = Ok | Timeout | RequestError

datatype event =
    BulkEdit "int list" int
  | ListDocuments int
  | Delete int
  | Input

datatype error = ValueError | StopIteration | KeyError

type_synonym history = "event list"

datatype page = Page "int list" | PageError

record world =
  bulk_edit :: "history \<Rightarrow> response"
  list_documents :: "history \<Rightarrow> page list"
  delete_ok :: "history \<Rightarrow> bool"
  stdin_line :: "history \<Rightarrow> string"

text \<open>
  A scripted world for concrete runs, in the manner of the mocks of the test suite: the
  \<open>k\<close>-th bulk edit request receives the \<open>k\<close>-th scripted reply (\<open>Ok\<close> once the script is
  exhausted), the documents of a correspondent are looked up in a table and arrive as a
  single page, deletions succeed and the user types \<open>line\<close>.
\<close>

fun is_bulk_edit :: "event \<Rightarrow> bool" where
  "is_bulk_edit (BulkEdit ds t) = True"
| "is_bulk_edit e = False"

definition mock_world :: "response list \<Rightarrow> (int \<times> int list) list \<Rightarrow> string \<Rightarrow> world" where
  "mock_world replies docs line =
     \<lparr> bulk_edit = (\<lambda>h. let k = length (filter is_bulk_edit h)
                          in if 0 < k \<and> k \<le> length replies then replies ! (k - 1) else Ok),
       list_documents =
         (\<lambda>h. case rev h of
                 ListDocuments c # _ \<Rightarrow>
                   (case map_of docs c of None \<Rightarrow> [Page []] | Some ds \<Rightarrow> [Page ds])
               | _ \<Rightarrow> []),
       delete_ok = (\<lambda>h. True),
       stdin_line = (\<lambda>h. line) \<rparr>"

section \<open>Names: \<^verbatim>\<open>str.lower()\<close> and \<^verbatim>\<open>str.strip()\<close>\<close>

text \<open>
  A Python string is a sequence of code points. Names are modelled as Isabelle strings,
  whose characters are the 256 code points U+0000 to U+00FF (Latin-1); on these,
  \<^verbatim>\<open>str.lower()\<close> maps each character to one character: A to Z and the accented capitals
  U+00C0 to U+00DE (without the multiplication sign U+00D7) move up by 32. The characters
  that \<^verbatim>\<open>str.strip()\<close> removes from both ends are those with \<^verbatim>\<open>str.isspace()\<close>: tab to
  carriage return, the separators U+001C to U+001F, space, U+0085 and U+00A0.
\<close>

definition lower_char :: "char \<Rightarrow> char" where
  "lower_char c =
     (let n = (of_char c :: nat)
      in if (65 \<le> n \<and> n \<le> 90) \<or> (192 \<le> n \<and> n \<le> 222 \<and> n \<noteq> 215)
         then char_of (n + 32) else c)"

definition lower :: "string \<Rightarrow> string" where
  "lower s = map lower_char s"

definition isspace :: "char \<Rightarrow> bool" where
  "isspace c =
     (let n = (of_char c :: nat)
      in (9 \<le> n \<and> n \<le> 13) \<or> (28 \<le> n \<and> n \<le> 32) \<or> n = 133 \<or> n = 160)"

definition strip :: "string \<Rightarrow> string" where
  "strip s = rev (dropWhile isspace (rev (dropWhile isspace s)))"

section \<open>Batched reassignment: \<^verbatim>\<open>bulk_reassign_documents\<close>\<close>

text \<open>
  \<^verbatim>\<open>bulk_reassign_documents(document_ids, target_correspondent_id, batch_size)\<close>.
  The \<^verbatim>\<open>for i in range(0, len(document_ids), batch_size)\<close> loop is the function
  \<open>reassign_batches\<close>, which carries the index \<open>i\<close>, the flag \<open>success\<close> and the
  history; the slice \<^verbatim>\<open>document_ids[i : i + batch_size]\<close> is \<open>take\<close> after \<open>drop\<close>.
  \<^verbatim>\<open>range\<close> raises \<^verbatim>\<open>ValueError\<close> for a step of zero and is empty for a negative
  step. The recursive call on a timeout makes the two functions mutually recursive.
\<close>

function bulk_reassign_documents ::
    "world \<Rightarrow> history \<Rightarrow> int list \<Rightarrow> int \<Rightarrow> int \<Rightarrow> (error + bool) \<times> history"
  and reassign_batches ::
    "world \<Rightarrow> int list \<Rightarrow> int \<Rightarrow> int \<Rightarrow> nat \<Rightarrow> bool \<Rightarrow> history \<Rightarrow> (error + bool) \<times> history"
where
  "bulk_reassign_documents srv h document_ids target batch_size =
     (if document_ids = [] then (Inr True, h)
      else if batch_size = 0 then (Inl ValueError, h)
      else reassign_batches srv document_ids target batch_size 0 True h)"
| "reassign_batches srv document_ids target batch_size i success h =
     (if 0 < batch_size \<and> i < length document_ids then
        let batch = take (nat batch_size) (drop i document_ids);
            h1 = h @ [BulkEdit batch target]
        in case bulk_edit srv h1 of
             Ok \<Rightarrow> reassign_batches srv document_ids target batch_size (i + nat batch_size) success h1
           | Timeout \<Rightarrow>
               if batch_size > 10 then
                 (case bulk_reassign_documents srv h1 batch target (batch_size div 2) of
                    (Inl e, h2) \<Rightarrow> (Inl e, h2)
                  | (Inr smaller_batch_success, h2) \<Rightarrow>
                      reassign_batches srv document_ids target batch_size (i + nat batch_size)
                        (if \<not> smaller_batch_success then False else success) h2)
               else reassign_batches srv document_ids target batch_size (i + nat batch_size) False h1
           | RequestError \<Rightarrow>
               reassign_batches srv document_ids target batch_size (i + nat batch_size) False h1
      else (Inr success, h))"
  by pat_completeness auto
termination
  apply (relation "inv_image (less_than <*lex*> less_than)
     (\<lambda>x. case x of
        Inl (srv, h, ids, target, bs) \<Rightarrow> (nat bs, Suc (length ids))
      | Inr (srv, ids, target, bs, i, success, h) \<Rightarrow> (nat bs, length ids - i))")
  apply auto
  done


declare bulk_reassign_documents.simps [simp del] reassign_batches.simps [simp del]

text \<open>
  The specification's view of the same computation: \<open>batches n xs\<close> cuts \<open>xs\<close> into
  consecutive pieces of length \<open>n\<close> (the last one may be shorter), and
  \<open>batch_outcomes\<close> records for each batch, in order, whether it ultimately succeeded:
  directly, or through the retry with half the batch size after a timeout.
\<close>

function batches :: "nat \<Rightarrow> 'a list \<Rightarrow> 'a list list" where
  "batches n xs = (if n = 0 \<or> xs = [] then [] else take n xs # batches n (drop n xs))"
  by pat_completeness auto
termination
  by (relation "measure (\<lambda>(n, xs). length xs)") auto

declare batches.simps [simp del]

fun batch_outcomes ::
    "world \<Rightarrow> history \<Rightarrow> int list list \<Rightarrow> int \<Rightarrow> int \<Rightarrow> bool list \<times> history" where
  "batch_outcomes srv h [] target batch_size = ([], h)"
| "batch_outcomes srv h (batch # rest) target batch_size =
     (let h1 = h @ [BulkEdit batch target];
          (ok, h2) =
            (case bulk_edit srv h1 of
               Ok \<Rightarrow> (True, h1)
             | Timeout \<Rightarrow>
                 if batch_size > 10 then
                   (case bulk_reassign_documents srv h1 batch target (batch_size div 2) of
                      (r, h2) \<Rightarrow> (r = Inr True, h2))
                 else (False, h1)
             | RequestError \<Rightarrow> (False, h1));
          (oks, h3) = batch_outcomes srv h2 rest target batch_size
      in (ok # oks, h3))"


section \<open>Merging correspondents\<close>

text \<open>
  A correspondent is the JSON object of the service; the code reads \<^verbatim>\<open>c["id"]\<close>,
  \<^verbatim>\<open>c["name"]\<close> and \<^verbatim>\<open>c.get("document_count", 0)\<close>, so the count is optional.
  A document is represented by its id, the only field the code reads.
\<close>

record correspondent =
  cid :: int
  name :: string
  document_count :: "int option"

definition doc_count :: "correspondent \<Rightarrow> int" where
  "doc_count c = (case document_count c of None \<Rightarrow> 0 | Some n \<Rightarrow> n)"

text \<open>
  \<^verbatim>\<open>get_correspondent_documents\<close> follows the \<^verbatim>\<open>next\<close> links and extends its result with
  each page; a failing request ends the loop and the documents collected so far are
  returned.
\<close>

fun collect_pages :: "page list \<Rightarrow> int list" where
  "collect_pages [] = []"
| "collect_pages (Page results # pages) = results @ collect_pages pages"
| "collect_pages (PageError # pages) = []"

definition get_correspondent_documents :: "world \<Rightarrow> history \<Rightarrow> int \<Rightarrow> int list \<times> history" where
  "get_correspondent_documents w h correspondent_id =
     (let h1 = h @ [ListDocuments correspondent_id]
      in (collect_pages (list_documents w h1), h1))"

definition merge_correspondents ::
    "world \<Rightarrow> history \<Rightarrow> int \<Rightarrow> int \<Rightarrow> (error + bool) \<times> history" where
  "merge_correspondents w h source_id target_id =
     (case get_correspondent_documents w h source_id of
        (documents, h1) \<Rightarrow>
          if documents = [] then (Inr True, h1)
          else bulk_reassign_documents w h1 documents target_id 50)"

definition delete_correspondent :: "world \<Rightarrow> history \<Rightarrow> int \<Rightarrow> bool \<times> history" where
  "delete_correspondent w h correspondent_id =
     (let h1 = h @ [Delete correspondent_id] in (delete_ok w h1, h1))"

text \<open>
  Python's \<^verbatim>\<open>max(iterable, key=...)\<close> keeps the first item and replaces it only by an
  item whose key is strictly greater; on an empty iterable it raises \<^verbatim>\<open>ValueError\<close>.
\<close>

fun py_max_from :: "('a \<Rightarrow> int) \<Rightarrow> 'a \<Rightarrow> 'a list \<Rightarrow> 'a" where
  "py_max_from key best [] = best"
| "py_max_from key best (x # xs) = py_max_from key (if key x > key best then x else best) xs"

fun py_max :: "('a \<Rightarrow> int) \<Rightarrow> 'a list \<Rightarrow> error + 'a" where
  "py_max key [] = Inl ValueError"
| "py_max key (x # xs) = Inr (py_max_from key x xs)"

text \<open>
  \<^verbatim>\<open>merge_correspondent_group(group, target_id)\<close>. \<open>merge_sources\<close> is its
  \<^verbatim>\<open>for correspondent in group\<close> loop with the variables \<open>success\<close> and
  \<open>merged_sources\<close>; \<open>delete_merged\<close> is the loop over \<open>merged_sources\<close> after the user
  has answered \<open>y\<close>.
\<close>

fun merge_sources ::
    "world \<Rightarrow> correspondent list \<Rightarrow> int \<Rightarrow> bool \<Rightarrow> int list \<Rightarrow> history
       \<Rightarrow> (error + bool \<times> int list) \<times> history" where
  "merge_sources w [] target_id success merged_sources h = (Inr (success, merged_sources), h)"
| "merge_sources w (c # cs) target_id success merged_sources h =
     (if cid c \<noteq> target_id then
        (case merge_correspondents w h (cid c) target_id of
           (Inl e, h1) \<Rightarrow> (Inl e, h1)
         | (Inr ok, h1) \<Rightarrow>
             if ok then merge_sources w cs target_id success (merged_sources @ [cid c]) h1
             else merge_sources w cs target_id False merged_sources h1)
      else merge_sources w cs target_id success merged_sources h)"

fun delete_merged :: "world \<Rightarrow> int list \<Rightarrow> history \<Rightarrow> history" where
  "delete_merged w [] h = h"
| "delete_merged w (source_id # rest) h =
     delete_merged w rest (snd (delete_correspondent w h source_id))"

definition merge_correspondent_group ::
    "world \<Rightarrow> history \<Rightarrow> correspondent list \<Rightarrow> int option \<Rightarrow> (error + bool) \<times> history" where
  "merge_correspondent_group w h grp target_id =
     (if length grp < 2 then (Inr False, h)
      else
        case (case target_id of
                None \<Rightarrow> (case py_max doc_count grp of
                            Inl e \<Rightarrow> Inl e
                          | Inr target_correspondent \<Rightarrow> Inr (Some (cid target_correspondent)))
              | Some t \<Rightarrow> (case find (\<lambda>c. cid c = t) grp of
                              None \<Rightarrow> Inr None
                            | Some target_correspondent \<Rightarrow> Inr (Some t))) of
          Inl e \<Rightarrow> (Inl e, h)
        | Inr None \<Rightarrow> (Inr False, h)
        | Inr (Some t) \<Rightarrow>
            (case merge_sources w grp t True [] h of
               (Inl e, h1) \<Rightarrow> (Inl e, h1)
             | (Inr (success, merged_sources), h1) \<Rightarrow>
                 if success \<and> merged_sources \<noteq> [] then
                   let h2 = h1 @ [Input]
                   in if lower (stdin_line w h2) = ''y''
                      then (Inr success, delete_merged w merged_sources h2)
                      else (Inr success, h2)
                 else (Inr success, h1)))"

text \<open>
  The specification's view: \<open>merge_each\<close> merges every source in turn, whatever the
  earlier merges returned, and records each result.
\<close>

fun merge_each :: "world \<Rightarrow> history \<Rightarrow> int list \<Rightarrow> int \<Rightarrow> bool list \<times> history" where
  "merge_each w h [] target_id = ([], h)"
| "merge_each w h (source_id # rest) target_id =
     (let (r, h1) = merge_correspondents w h source_id target_id;
          (rs, h2) = merge_each w h1 rest target_id
      in ((r = Inr True) # rs, h2))"

text \<open>A group for concrete runs: two members share the highest document count.\<close>

definition example_group :: "correspondent list" where
  "example_group =
     [\<lparr>cid = 1, name = ''Acme'', document_count = Some 3\<rparr>,
      \<lparr>cid = 2, name = ''ACME'', document_count = None\<rparr>,
      \<lparr>cid = 3, name = ''acme '', document_count = Some 5\<rparr>,
      \<lparr>cid = 4, name = ''Acme.'', document_count = Some 5\<rparr>]"

section \<open>Exact duplicates: \<^verbatim>\<open>find_exact_duplicates\<close>\<close>

text \<open>
  The finders start with \<^verbatim>\<open>self.get_correspondents()\<close>; they are modelled as functions
  of the list that call returned. \<^verbatim>\<open>name_groups\<close> is a Python \<^verbatim>\<open>dict\<close>, which keeps
  its keys in insertion order: it is an association list, where \<open>AList.update\<close> appends
  a new key at the end and \<open>AList.map_entry\<close> changes the value of a key in place.
\<close>

definition normalized :: "string \<Rightarrow> string" where
  "normalized s = strip (lower s)"

definition add_to_name_groups ::
    "(string \<times> correspondent list) list \<Rightarrow> correspondent \<Rightarrow> (string \<times> correspondent list) list" where
  "add_to_name_groups name_groups correspondent =
     (let name_lower = strip (lower (name correspondent));
          name_groups1 = (if map_of name_groups name_lower = None
                          then AList.update name_lower [] name_groups else name_groups)
      in AList.map_entry name_lower (\<lambda>g. g @ [correspondent]) name_groups1)"

definition find_exact_duplicates :: "correspondent list \<Rightarrow> correspondent list list" where
  "find_exact_duplicates correspondents =
     (let name_groups = foldl add_to_name_groups [] correspondents
      in [g \<leftarrow> map snd name_groups. length g > 1])"

text \<open>
  The specification's view: the distinct elements of a list in the order of their first
  occurrence (\<open>remdups\<close> keeps the last occurrence of each element, hence the reversals).
\<close>

definition first_seen :: "'a list \<Rightarrow> 'a list" where
  "first_seen xs = rev (remdups (rev xs))"

text \<open>The correspondents of the test suite's duplicate test, in another order.\<close>

definition example_correspondents :: "correspondent list" where
  "example_correspondents =
     [\<lparr>cid = 1, name = ''John Doe'', document_count = None\<rparr>,
      \<lparr>cid = 4, name = ''Jane Smith'', document_count = None\<rparr>,
      \<lparr>cid = 2, name = ''JOHN DOE'', document_count = None\<rparr>,
      \<lparr>cid = 3, name = ''  john doe  '', document_count = None\<rparr>]"

section \<open>Similarity: \<^verbatim>\<open>difflib.SequenceMatcher(None, a, b).ratio()\<close>\<close>

text \<open>
  \<^verbatim>\<open>calculate_similarity\<close> normalises both names and returns the ratio of Python's
  \<^verbatim>\<open>difflib.SequenceMatcher\<close> with no junk function and the default
  \<^verbatim>\<open>autojunk=True\<close>. The library code is modelled as it is written.

  \<open>chain_b b elt\<close> is \<^verbatim>\<open>b2j.get(elt, [])\<close> after \<^verbatim>\<open>__chain_b\<close>: the positions of
  \<open>elt\<close> in \<open>b\<close> in increasing order, unless \<open>b\<close> has at least 200 elements and \<open>elt\<close>
  occurs more than \<open>len(b) // 100 + 1\<close> times; such a popular element is deleted from
  \<^verbatim>\<open>b2j\<close>. With \<^verbatim>\<open>isjunk=None\<close> the junk set is empty.

  The score is a Python float, \<^verbatim>\<open>2.0 * matches / length\<close>; it is modelled as the exact
  rational number, without the rounding of the division.
\<close>

type_synonym match = "nat \<times> nat \<times> nat"

definition chain_b :: "string \<Rightarrow> char \<Rightarrow> nat list" where
  "chain_b b elt =
     (let indices = [i \<leftarrow> [0..<length b]. b ! i = elt];
          n = length b
      in if n \<ge> 200 \<and> length indices > n div 100 + 1 then [] else indices)"

definition isbjunk :: "char \<Rightarrow> bool" where
  "isbjunk elt = False"

text \<open>
  \<^verbatim>\<open>find_longest_match(alo, ahi, blo, bhi)\<close>. \<open>scan_indices\<close> is the inner loop over
  \<^verbatim>\<open>b2j.get(a[i], nothing)\<close> with its \<^verbatim>\<open>continue\<close> and \<^verbatim>\<open>break\<close>; \<open>j2lenget j2len j\<close> is
  \<^verbatim>\<open>j2len.get(j-1, 0)\<close>, where the key \<open>-1\<close> is never present; \<open>scan_row\<close> is one
  iteration of the loop over \<open>i\<close>, and \<open>i + 1 - k\<close> stands for \<^verbatim>\<open>i-k+1\<close> on natural
  numbers. The four \<^verbatim>\<open>while\<close> loops that extend the match are \<open>extend_left\<close> and
  \<open>extend_right\<close>, first over elements that are not junk, then over junk. The function
  is called on ranges within the two strings only.
\<close>

definition j2lenget :: "(nat \<rightharpoonup> nat) \<Rightarrow> nat \<Rightarrow> nat" where
  "j2lenget j2len j = (if j = 0 then 0 else case j2len (j - 1) of None \<Rightarrow> 0 | Some k \<Rightarrow> k)"

fun scan_indices ::
    "(nat \<rightharpoonup> nat) \<Rightarrow> nat \<Rightarrow> nat \<Rightarrow> nat \<Rightarrow> nat list \<Rightarrow> (nat \<rightharpoonup> nat) \<times> match
       \<Rightarrow> (nat \<rightharpoonup> nat) \<times> match" where
  "scan_indices j2len i blo bhi [] (newj2len, best) = (newj2len, best)"
| "scan_indices j2len i blo bhi (j # js) (newj2len, besti, bestj, bestsize) =
     (if j < blo then scan_indices j2len i blo bhi js (newj2len, besti, bestj, bestsize)
      else if j \<ge> bhi then (newj2len, besti, bestj, bestsize)
      else
        let k = j2lenget j2len j + 1
        in scan_indices j2len i blo bhi js
             (newj2len(j \<mapsto> k),
              if k > bestsize then (i + 1 - k, j + 1 - k, k) else (besti, bestj, bestsize)))"

definition scan_row ::
    "string \<Rightarrow> string \<Rightarrow> nat \<Rightarrow> nat \<Rightarrow> (nat \<rightharpoonup> nat) \<times> match \<Rightarrow> nat \<Rightarrow> (nat \<rightharpoonup> nat) \<times> match" where
  "scan_row a b blo bhi st i =
     (case st of (j2len, best) \<Rightarrow>
        scan_indices j2len i blo bhi (chain_b b (a ! i)) (Map.empty, best))"

function extend_left :: "string \<Rightarrow> string \<Rightarrow> nat \<Rightarrow> nat \<Rightarrow> bool \<Rightarrow> match \<Rightarrow> match" where
  "extend_left a b alo blo junk (besti, bestj, bestsize) =
     (if besti > alo \<and> bestj > blo \<and> isbjunk (b ! (bestj - 1)) = junk
          \<and> a ! (besti - 1) = b ! (bestj - 1)
      then extend_left a b alo blo junk (besti - 1, bestj - 1, bestsize + 1)
      else (besti, bestj, bestsize))"
  by pat_completeness auto
termination
  by (relation "measure (\<lambda>(a, b, alo, blo, junk, besti, bestj, bestsize). besti)") auto

function extend_right :: "string \<Rightarrow> string \<Rightarrow> nat \<Rightarrow> nat \<Rightarrow> bool \<Rightarrow> match \<Rightarrow> match" where
  "extend_right a b ahi bhi junk (besti, bestj, bestsize) =
     (if besti + bestsize < ahi \<and> bestj + bestsize < bhi \<and> isbjunk (b ! (bestj + bestsize)) = junk
          \<and> a ! (besti + bestsize) = b ! (bestj + bestsize)
      then extend_right a b ahi bhi junk (besti, bestj, bestsize + 1)
      else (besti, bestj, bestsize))"
  by pat_completeness auto
termination
  by (relation "measure (\<lambda>(a, b, ahi, bhi, junk, besti, bestj, bestsize). ahi - (besti + bestsize))") auto

declare extend_left.simps [simp del] extend_right.simps [simp del]

definition find_longest_match :: "string \<Rightarrow> string \<Rightarrow> nat \<Rightarrow> nat \<Rightarrow> nat \<Rightarrow> nat \<Rightarrow> match" where
  "find_longest_match a b alo ahi blo bhi =
     (let (j2len, best) = foldl (scan_row a b blo bhi) (Map.empty, (alo, blo, 0)) [alo..<ahi];
          best = extend_left a b alo blo False best;
          best = extend_right a b ahi bhi False best;
          best = extend_left a b alo blo True best;
          best = extend_right a b ahi bhi True best
      in best)"


text \<open>Bounds of the match found, needed for the termination of the loop over the queue.\<close>

lemma j2lenget_le:
  "\<forall>j v. j2len j = Some v \<longrightarrow> v \<le> m \<Longrightarrow> j2lenget j2len j \<le> m"
  by (auto simp: j2lenget_def split: option.splits)

lemma scan_indices_bounds:
  assumes "alo \<le> i"
    and "\<forall>j v. j2len j = Some v \<longrightarrow> v \<le> i - alo"
    and "alo \<le> besti" and "besti + bestsize \<le> i + 1"
    and "\<forall>j v. newj2len j = Some v \<longrightarrow> v \<le> i + 1 - alo"
    and "scan_indices j2len i blo bhi js (newj2len, besti, bestj, bestsize) = (new', besti', bestj', bestsize')"
  shows "alo \<le> besti' \<and> besti' + bestsize' \<le> i + 1 \<and> (\<forall>j v. new' j = Some v \<longrightarrow> v \<le> i + 1 - alo)"
  using assms(3-)
proof (induction js arbitrary: newj2len besti bestj bestsize)
  case Nil
  then show ?case by simp
next
  case (Cons j js)
  show ?case
  proof (cases "j < blo")
    case True
    with Cons show ?thesis by simp
  next
    case False
    note lo = this
    show ?thesis
    proof (cases "j \<ge> bhi")
      case True
      with lo Cons.prems show ?thesis by simp
    next
      case False
      define k where "k = j2lenget j2len j + 1"
      have k: "k \<le> i + 1 - alo"
        using j2lenget_le[OF assms(2), of j] assms(1) by (simp add: k_def)
      define best where "best = (if k > bestsize then (i + 1 - k, j + 1 - k, k) else (besti, bestj, bestsize))"
      obtain bi bj bk where best': "best = (bi, bj, bk)" by (cases best) auto
      have 1: "alo \<le> bi" and 2: "bi + bk \<le> i + 1"
        using best' k Cons.prems(1,2) assms(1) by (auto simp: best_def split: if_splits)
      have 3: "\<forall>j' v. (newj2len(j \<mapsto> k)) j' = Some v \<longrightarrow> v \<le> i + 1 - alo"
        using Cons.prems(3) k by auto
      have "scan_indices j2len i blo bhi (j # js) (newj2len, besti, bestj, bestsize)
              = scan_indices j2len i blo bhi js (newj2len(j \<mapsto> k), best)"
        using lo False by (simp add: Let_def k_def best_def)
      then have "scan_indices j2len i blo bhi js (newj2len(j \<mapsto> k), bi, bj, bk) = (new', besti', bestj', bestsize')"
        using Cons.prems(4) by (simp add: best')
      from Cons.IH[OF 1 2 3 this] show ?thesis .
    qed
  qed
qed

lemma scan_rows_bounds:
  assumes "alo \<le> n"
    and "foldl (scan_row a b blo bhi) (Map.empty, (alo, blo, 0)) [alo..<n] = (j2len, besti, bestj, bestsize)"
  shows "alo \<le> besti \<and> besti + bestsize \<le> n \<and> (\<forall>j v. j2len j = Some v \<longrightarrow> v \<le> n - alo)"
  using assms
proof (induction n arbitrary: j2len besti bestj bestsize)
  case 0
  then have "j2len = Map.empty" "besti = alo" "bestsize = 0" by auto
  with 0 show ?case by simp
next
  case (Suc n)
  show ?case
  proof (cases "alo = Suc n")
    case True
    with Suc.prems have "j2len = Map.empty" "besti = alo" "bestsize = 0" by auto
    with True show ?thesis by simp
  next
    case False
    with Suc.prems(1) have le: "alo \<le> n" by simp
    obtain j2len0 bi bj bk where
      prev: "foldl (scan_row a b blo bhi) (Map.empty, (alo, blo, 0)) [alo..<n] = (j2len0, bi, bj, bk)"
      by (cases "foldl (scan_row a b blo bhi) (Map.empty, (alo, blo, 0)) [alo..<n]") auto
    from Suc.IH[OF le prev] have
      IH: "alo \<le> bi" "bi + bk \<le> n" "\<forall>j v. j2len0 j = Some v \<longrightarrow> v \<le> n - alo" by auto
    have "scan_row a b blo bhi (j2len0, bi, bj, bk) n = (j2len, besti, bestj, bestsize)"
      using Suc.prems(2) le prev by simp
    then have "scan_indices j2len0 n blo bhi (chain_b b (a ! n)) (Map.empty, bi, bj, bk)
            = (j2len, besti, bestj, bestsize)"
      by (simp add: scan_row_def)
    from scan_indices_bounds[OF le IH(3) IH(1) _ _ this] IH(2)
    show ?thesis by simp
  qed
qed

lemma extend_left_bounds:
  "extend_left a b alo blo junk (besti, bestj, bestsize) = (i, j, k) \<Longrightarrow> alo \<le> besti \<Longrightarrow>
     alo \<le> i \<and> i + k = besti + bestsize \<and> bestsize \<le> k"
proof (induction a b alo blo junk "(besti, bestj, bestsize)" arbitrary: besti bestj bestsize
       rule: extend_left.induct)
  case (1 a b alo blo junk besti bestj bestsize)
  show ?case
  proof (cases "besti > alo \<and> bestj > blo \<and> isbjunk (b ! (bestj - 1)) = junk
          \<and> a ! (besti - 1) = b ! (bestj - 1)")
    case True
    with "1.prems" have "extend_left a b alo blo junk (besti - 1, bestj - 1, bestsize + 1) = (i, j, k)"
      by (subst (asm) extend_left.simps) simp
    moreover from True have "alo \<le> besti - 1" by auto
    ultimately show ?thesis using "1.hyps"[OF True] True by auto
  next
    case False
    with "1.prems" show ?thesis by (subst (asm) extend_left.simps) auto
  qed
qed

lemma extend_right_bounds:
  "extend_right a b ahi bhi junk (besti, bestj, bestsize) = (i, j, k) \<Longrightarrow>
     i = besti \<and> bestsize \<le> k \<and> (k = bestsize \<or> i + k \<le> ahi)"
proof (induction a b ahi bhi junk "(besti, bestj, bestsize)" arbitrary: besti bestj bestsize
       rule: extend_right.induct)
  case (1 a b ahi bhi junk besti bestj bestsize)
  show ?case
  proof (cases "besti + bestsize < ahi \<and> bestj + bestsize < bhi
          \<and> isbjunk (b ! (bestj + bestsize)) = junk
          \<and> a ! (besti + bestsize) = b ! (bestj + bestsize)")
    case True
    with "1.prems" have "extend_right a b ahi bhi junk (besti, bestj, bestsize + 1) = (i, j, k)"
      by (subst (asm) extend_right.simps) simp
    from "1.hyps"[OF True this] True show ?thesis by auto
  next
    case False
    with "1.prems" show ?thesis by (subst (asm) extend_right.simps) auto
  qed
qed

lemma find_longest_match_bounds:
  assumes "find_longest_match a b alo ahi blo bhi = (i, j, k)" and "0 < k"
  shows "alo \<le> i \<and> i + k \<le> ahi"
proof (cases "alo \<le> ahi")
  case False
  then have "foldl (scan_row a b blo bhi) (Map.empty, (alo, blo, 0)) [alo..<ahi]
      = (Map.empty, (alo, blo, 0))" by simp
  moreover have "extend_left a b alo blo junk (alo, blo, 0) = (alo, blo, 0)" for junk
    by (subst extend_left.simps) simp
  moreover have "extend_right a b ahi bhi junk (alo, blo, 0) = (alo, blo, 0)" for junk
    using False by (subst extend_right.simps) simp
  ultimately have "find_longest_match a b alo ahi blo bhi = (alo, blo, 0)"
    by (simp add: find_longest_match_def)
  with assms show ?thesis by simp
next
  case True
  obtain j2len i0 j0 k0 where
    scan: "foldl (scan_row a b blo bhi) (Map.empty, (alo, blo, 0)) [alo..<ahi] = (j2len, i0, j0, k0)"
    by (cases "foldl (scan_row a b blo bhi) (Map.empty, (alo, blo, 0)) [alo..<ahi]") auto
  obtain i1 j1 k1 where e1: "extend_left a b alo blo False (i0, j0, k0) = (i1, j1, k1)"
    by (cases "extend_left a b alo blo False (i0, j0, k0)") auto
  obtain i2 j2 k2 where e2: "extend_right a b ahi bhi False (i1, j1, k1) = (i2, j2, k2)"
    by (cases "extend_right a b ahi bhi False (i1, j1, k1)") auto
  obtain i3 j3 k3 where e3: "extend_left a b alo blo True (i2, j2, k2) = (i3, j3, k3)"
    by (cases "extend_left a b alo blo True (i2, j2, k2)") auto
  have e4: "extend_right a b ahi bhi True (i3, j3, k3) = (i, j, k)"
    using assms(1) by (simp add: find_longest_match_def scan e1 e2 e3)
  from scan_rows_bounds[OF True scan] have s: "alo \<le> i0" "i0 + k0 \<le> ahi" by auto
  from extend_left_bounds[OF e1] s have b1: "alo \<le> i1" "i1 + k1 \<le> ahi" by auto
  from extend_right_bounds[OF e2] b1 have b2: "alo \<le> i2" "i2 + k2 \<le> ahi" by auto
  from extend_left_bounds[OF e3] b2 have b3: "alo \<le> i3" "i3 + k3 \<le> ahi" by auto
  from extend_right_bounds[OF e4] b3 show ?thesis by auto
qed

text \<open>
  \<^verbatim>\<open>get_matching_blocks\<close>. The \<^verbatim>\<open>queue\<close> is used as a stack (\<^verbatim>\<open>queue.pop()\<close> takes the
  last element): the head of the list is its top. That the loop ends rests on the bounds
  of \<open>find_longest_match\<close>: a match of positive size lies within the range searched.
\<close>

type_synonym range = "nat \<times> nat \<times> nat \<times> nat"

function matching_blocks_loop :: "string \<Rightarrow> string \<Rightarrow> range list \<Rightarrow> match list \<Rightarrow> match list" where
  "matching_blocks_loop a b [] matching_blocks = matching_blocks"
| "matching_blocks_loop a b ((alo, ahi, blo, bhi) # queue) matching_blocks =
     (case find_longest_match a b alo ahi blo bhi of
        (i, j, k) \<Rightarrow>
          if k \<noteq> 0 then
            let queue1 = (if alo < i \<and> blo < j then (alo, i, blo, j) # queue else queue);
                queue2 = (if i + k < ahi \<and> j + k < bhi then (i + k, ahi, j + k, bhi) # queue1
                          else queue1)
            in matching_blocks_loop a b queue2 (matching_blocks @ [(i, j, k)])
          else matching_blocks_loop a b queue matching_blocks)"
  by pat_completeness auto
termination
proof (relation "measure (\<lambda>(a, b, queue, matching_blocks).
          sum_list (map (\<lambda>(alo, ahi, blo, bhi). 1 + 2 * (ahi - alo)) queue))", goal_cases)
  case 1
  show ?case by simp
next
  case 2
  then show ?case
    by (auto dest: find_longest_match_bounds[OF sym])
next
  case 3
  then show ?case by simp
qed

text \<open>The sorted blocks, with adjacent blocks merged, and the final sentinel.\<close>

fun collapse_adjacent :: "match \<Rightarrow> match list \<Rightarrow> match list \<Rightarrow> match list" where
  "collapse_adjacent (i1, j1, k1) non_adjacent [] =
     (if k1 \<noteq> 0 then non_adjacent @ [(i1, j1, k1)] else non_adjacent)"
| "collapse_adjacent (i1, j1, k1) non_adjacent ((i2, j2, k2) # matching_blocks) =
     (if i1 + k1 = i2 \<and> j1 + k1 = j2
      then collapse_adjacent (i1, j1, k1 + k2) non_adjacent matching_blocks
      else collapse_adjacent (i2, j2, k2)
             (if k1 \<noteq> 0 then non_adjacent @ [(i1, j1, k1)] else non_adjacent) matching_blocks)"

declare matching_blocks_loop.simps [simp del]

definition get_matching_blocks :: "string \<Rightarrow> string \<Rightarrow> match list" where
  "get_matching_blocks a b =
     (let la = length a; lb = length b;
          matching_blocks = sort (matching_blocks_loop a b [(0, la, 0, lb)] []);
          non_adjacent = collapse_adjacent (0, 0, 0) [] matching_blocks
      in non_adjacent @ [(la, lb, 0)])"

definition calculate_ratio :: "nat \<Rightarrow> nat \<Rightarrow> rat" where
  "calculate_ratio matches length' =
     (if length' \<noteq> 0 then 2 * of_nat matches / of_nat length' else 1)"

definition ratio :: "string \<Rightarrow> string \<Rightarrow> rat" where
  "ratio a b =
     (let matches = sum_list (map (\<lambda>(i, j, k). k) (get_matching_blocks a b))
      in calculate_ratio matches (length a + length b))"

definition calculate_similarity :: "string \<Rightarrow> string \<Rightarrow> rat" where
  "calculate_similarity name1 name2 = ratio (strip (lower name1)) (strip (lower name2))"

section \<open>Similar correspondents\<close>

text \<open>
  \<^verbatim>\<open>find_similar_correspondents_pairs\<close>: \<open>candidate_pairs\<close> enumerates the pairs \<open>i < j\<close>
  in the order of the two nested loops; Python's stable sort with \<^verbatim>\<open>reverse=True\<close> keeps
  the pairs of equal score in their order, as \<open>sort_key\<close> on the negated score does.

  \<^verbatim>\<open>find_similar_correspondents\<close>: \<open>similar_ids correspondents threshold i\<close> is the list
  that the inner loop appends to \<^verbatim>\<open>similar_graph[corr1["id"]]\<close>; the graph is only looked
  up, so it is a map. \<open>traverse\<close> is the \<^verbatim>\<open>while stack\<close> loop (the head of the list is
  the top of the stack), where \<^verbatim>\<open>next(...)\<close> raises \<^verbatim>\<open>StopIteration\<close> for an unknown id
  and the graph lookup raises \<^verbatim>\<open>KeyError\<close>; \<open>collect_groups\<close> is the loop over the
  correspondents. Groups are sorted by \<^verbatim>\<open>x["name"].lower()\<close>; Python compares strings
  lexicographically by code point.
\<close>

fun candidate_pairs :: "'a list \<Rightarrow> ('a \<times> 'a) list" where
  "candidate_pairs [] = []"
| "candidate_pairs (corr1 # rest) = map (Pair corr1) rest @ candidate_pairs rest"

definition find_similar_correspondents_pairs ::
    "correspondent list \<Rightarrow> rat \<Rightarrow> (correspondent \<times> correspondent \<times> rat) list" where
  "find_similar_correspondents_pairs correspondents threshold =
     (let similar_pairs =
            [(corr1, corr2, similarity).
               (corr1, corr2) \<leftarrow> candidate_pairs correspondents,
               similarity \<leftarrow> [calculate_similarity (name corr1) (name corr2)],
               similarity \<ge> threshold]
      in sort_key (\<lambda>(corr1, corr2, similarity). - similarity) similar_pairs)"

definition similar_ids :: "correspondent list \<Rightarrow> rat \<Rightarrow> nat \<Rightarrow> int list" where
  "similar_ids correspondents threshold i =
     [cid (correspondents ! j).
        j \<leftarrow> [0..<length correspondents],
        i \<noteq> j,
        calculate_similarity (name (correspondents ! i)) (name (correspondents ! j)) \<ge> threshold]"

definition similar_graph :: "correspondent list \<Rightarrow> rat \<Rightarrow> (int \<rightharpoonup> int list)" where
  "similar_graph correspondents threshold =
     foldl (\<lambda>graph i. graph(cid (correspondents ! i) \<mapsto> similar_ids correspondents threshold i))
       Map.empty [0..<length correspondents]"

function traverse ::
    "correspondent list \<Rightarrow> (int \<rightharpoonup> int list) \<Rightarrow> int list \<Rightarrow> int set \<Rightarrow> correspondent list
       \<Rightarrow> error + int set \<times> correspondent list" where
  "traverse correspondents graph [] visited grp = Inr (visited, grp)"
| "traverse correspondents graph (current_id # stack) visited grp =
     (if current_id \<notin> visited then
        (case find (\<lambda>c. cid c = current_id) correspondents of
           None \<Rightarrow> Inl StopIteration
         | Some current_corr \<Rightarrow>
             (case graph current_id of
                None \<Rightarrow> Inl KeyError
              | Some similar \<Rightarrow>
                  traverse correspondents graph
                    (rev [similar_id \<leftarrow> similar. similar_id \<notin> insert current_id visited] @ stack)
                    (insert current_id visited) (grp @ [current_corr])))
      else traverse correspondents graph stack visited grp)"
  by pat_completeness auto
termination
proof (relation "inv_image (less_than <*lex*> less_than)
     (\<lambda>(correspondents, graph, stack, visited, grp).
        (card (cid ` set correspondents - visited), length stack))", goal_cases)
  case 1
  show ?case by auto
next
  case (2 correspondents graph current_id stack visited grp current_corr similar)
  from 2(2) have "current_id \<in> cid ` set correspondents"
    by (auto simp: find_Some_iff image_iff)
  with 2(1) have "card (cid ` set correspondents - insert current_id visited)
      < card (cid ` set correspondents - visited)"
    by (intro psubset_card_mono) auto
  then show ?case by simp
next
  case 3
  then show ?case by simp
qed

declare traverse.simps [simp del]

fun collect_groups ::
    "correspondent list \<Rightarrow> (int \<rightharpoonup> int list) \<Rightarrow> correspondent list \<Rightarrow> int set
       \<Rightarrow> correspondent list list \<Rightarrow> error + correspondent list list" where
  "collect_groups correspondents graph [] visited groups = Inr groups"
| "collect_groups correspondents graph (correspondent # rest) visited groups =
     (if cid correspondent \<notin> visited then
        (case traverse correspondents graph [cid correspondent] visited [] of
           Inl e \<Rightarrow> Inl e
         | Inr (visited1, grp) \<Rightarrow>
             collect_groups correspondents graph rest visited1
               (if length grp > 1 then groups @ [sort_key (\<lambda>x. lower (name x)) grp] else groups))
      else collect_groups correspondents graph rest visited groups)"

definition find_similar_correspondents ::
    "correspondent list \<Rightarrow> rat \<Rightarrow> error + correspondent list list" where
  "find_similar_correspondents correspondents threshold =
     collect_groups correspondents (similar_graph correspondents threshold) correspondents {} []"

text \<open>Correspondents for concrete runs, given by id and name.\<close>

definition named :: "(int \<times> string) list \<Rightarrow> correspondent list" where
  "named xs = map (\<lambda>(i, n). \<lparr>cid = i, name = n, document_count = None\<rparr>) xs"

definition example_names :: "correspondent list" where
  "example_names = named [(1, ''ab''), (2, ''ab''), (3, ''ac''), (4, ''ac''), (5, ''xy'')]"

definition example_padded :: "correspondent list" where
  "example_padded = named [(1, '' ab''), (2, ''aa'')]"


section \<open>The Ratcliff-Obershelp ratio, as the specification words it\<close>

text \<open>
  This section does not embed code: it writes out the ratio that the specification names,
  to be compared with the score of \<^verbatim>\<open>calculate_similarity\<close>. \<open>common_prefix\<close> is the
  length of the longest common prefix of two strings; \<open>longest_common_substring a b\<close> is
  the first longest common substring as \<open>(i, j, k)\<close>: \<open>k\<close> characters from position \<open>i\<close>
  of \<open>a\<close> and position \<open>j\<close> of \<open>b\<close>, the greatest \<open>k\<close>, and among those the one that starts
  earliest in \<open>a\<close>, then earliest in \<open>b\<close>. \<open>ro_matches\<close> adds the length of that substring to
  the matches of the remainders left of it and of the remainders right of it, and
  \<open>ratcliff_obershelp\<close> is \<open>2 * M / T\<close>, with 1 for two empty strings.
\<close>

fun common_prefix :: "'a list \<Rightarrow> 'a list \<Rightarrow> nat" where
  "common_prefix (x # xs) (y # ys) = (if x = y then Suc (common_prefix xs ys) else 0)"
| "common_prefix xs ys = 0"

definition longest_common_substring :: "'a list \<Rightarrow> 'a list \<Rightarrow> nat \<times> nat \<times> nat" where
  "longest_common_substring a b =
     foldl (\<lambda>(besti, bestj, bestsize) (i, j).
              let k = common_prefix (drop i a) (drop j b)
              in if k > bestsize then (i, j, k) else (besti, bestj, bestsize))
       (0, 0, 0) (List.product [0..<length a] [0..<length b])"

lemma longest_common_substring_within:
  assumes "longest_common_substring a b = (i, j, k)" and "k \<noteq> 0"
  shows "i < length a \<and> j < length b"
proof -
  define f where "f = (\<lambda>(besti, bestj, bestsize) (i, j).
              let k = common_prefix (drop i a) (drop j b)
              in if k > bestsize then (i, j, k) else (besti :: nat, bestj :: nat, bestsize))"
  have inv: "foldl f best cells = best
      \<or> (fst (foldl f best cells), fst (snd (foldl f best cells))) \<in> set cells"
    for best cells
  proof (induction cells arbitrary: best)
    case Nil
    then show ?case by simp
  next
    case (Cons c cells)
    obtain bi bj bk where best: "best = (bi, bj, bk)" by (cases best) auto
    obtain ci cj where c: "c = (ci, cj)" by (cases c)
    have "f best c = best \<or> (fst (f best c), fst (snd (f best c))) = c"
      by (simp add: f_def best c Let_def)
    with Cons.IH[of "f best c"] show ?case
      by auto
  qed
  from inv[of "(0, 0, 0)" "List.product [0..<length a] [0..<length b]"] assms
  show ?thesis by (auto simp: longest_common_substring_def f_def[symmetric])
qed

function ro_matches :: "'a list \<Rightarrow> 'a list \<Rightarrow> nat" where
  "ro_matches a b =
     (case longest_common_substring a b of
        (i, j, k) \<Rightarrow>
          if k = 0 then 0
          else ro_matches (take i a) (take j b) + k + ro_matches (drop (i + k) a) (drop (j + k) b))"
  by pat_completeness auto
termination
proof (relation "measure (\<lambda>(a, b). length a)", goal_cases)
  case 1
  show ?case by simp
next
  case 2
  then show ?case by (auto dest: longest_common_substring_within[OF sym])
next
  case 3
  then show ?case by (auto dest: longest_common_substring_within[OF sym])
qed

declare ro_matches.simps [simp del]

definition ratcliff_obershelp :: "'a list \<Rightarrow> 'a list \<Rightarrow> rat" where
  "ratcliff_obershelp a b =
     (if length a + length b = 0 then 1
      else 2 * of_nat (ro_matches a b) / of_nat (length a + length b))"

section \<open>Properties of the batched reassignment\<close>

lemma batches_Nil [simp]: "batches n [] = []"
  by (simp add: batches.simps)

lemma batches_step: "0 < n \<Longrightarrow> xs \<noteq> [] \<Longrightarrow> batches n xs = take n xs # batches n (drop n xs)"
  by (subst batches.simps) simp

lemma concat_batches: "0 < n \<Longrightarrow> concat (batches n xs) = xs"
proof (induction n xs rule: batches.induct)
  case (1 n xs)
  show ?case
  proof (cases "xs = []")
    case True
    then show ?thesis by simp
  next
    case False
    with 1 show ?thesis by (simp add: batches_step)
  qed
qed

lemma batches_bounds: "b \<in> set (batches n xs) \<Longrightarrow> b \<noteq> [] \<and> length b \<le> n"
proof (induction n xs rule: batches.induct)
  case (1 n xs)
  show ?case
  proof (cases "n = 0 \<or> xs = []")
    case True
    with 1(2) show ?thesis by (auto simp: batches.simps)
  next
    case False
    with 1 show ?thesis by (auto simp: batches_step)
  qed
qed

lemma length_batches: "0 < n \<Longrightarrow> length (batches n xs) = (length xs + n - 1) div n"
proof (induction n xs rule: batches.induct)
  case (1 n xs)
  show ?case
  proof (cases "xs = []")
    case True
    with 1(2) show ?thesis by simp
  next
    case False
    note ne = this
    show ?thesis
    proof (cases "length xs \<le> n")
      case True
      with ne 1(2) have "drop n xs = []" by simp
      moreover from True ne 1(2) have "(length xs + n - 1) div n = 1"
        by (intro div_nat_eqI) (cases xs; simp)+
      ultimately show ?thesis using ne 1(2) by (simp add: batches_step)
    next
      case False
      then have "length xs + n - 1 = (length xs - n + n - 1) + n" by simp
      then have "(length xs + n - 1) div n = Suc ((length xs - n + n - 1) div n)"
        using 1(2) by (metis div_add_self2 less_numeral_extra(3) Suc_eq_plus1)
      with 1 ne show ?thesis by (simp add: batches_step)
    qed
  qed
qed


lemma request_bound_step:
  assumes "0 < n" "0 < m" "k \<le> min n m * (n - 1)" "j \<le> (m - n) * n"
  shows "Suc (k + j) \<le> m * (n::nat)"
proof (cases "n \<le> m")
  case True
  then obtain d where m: "m = n + d" using le_Suc_ex by blast
  from assms(3) True have k: "k \<le> n * (n - 1)" by (simp add: min_def)
  from assms(4) m have j: "j \<le> d * n" by simp
  have "Suc (n * (n - 1)) \<le> n * n" using assms(1) by (cases n) auto
  with k j have "Suc (k + j) \<le> n * n + d * n" by linarith
  then show ?thesis using m by (simp add: algebra_simps)
next
  case False
  then have "j = 0" using assms(4) by simp
  moreover from False assms(3) have "k \<le> m * (n - 1)" by (simp add: min_def)
  moreover have "Suc (m * (n - 1)) \<le> m * n"
    using assms(1,2) by (cases n; cases m) auto
  ultimately show ?thesis by linarith
qed

lemma bulk_total:
  "1 \<le> batch_size \<Longrightarrow>
     \<exists>ok new. bulk_reassign_documents srv h document_ids target batch_size = (Inr ok, h @ new)
       \<and> length new \<le> length document_ids * nat batch_size"
  and loop_total:
  "1 \<le> batch_size \<Longrightarrow>
     \<exists>ok new. reassign_batches srv document_ids target batch_size i success h = (Inr ok, h @ new)
       \<and> length new \<le> (length document_ids - i) * nat batch_size"
proof (induction srv h document_ids target batch_size and srv document_ids target batch_size i success h
       rule: bulk_reassign_documents_reassign_batches.induct)
  case (1 srv h document_ids target batch_size)
  then show ?case
    by (subst bulk_reassign_documents.simps) auto
next
  case (2 srv document_ids target batch_size i success h)
  note bs = \<open>1 \<le> batch_size\<close>
  define n where "n = nat batch_size"
  define m where "m = length document_ids - i"
  define batch where "batch = take (nat batch_size) (drop i document_ids)"
  define h1 where "h1 = h @ [BulkEdit batch target]"
  have n: "0 < n" using bs by (simp add: n_def)
  show ?case
  proof (cases "i < length document_ids")
    case False
    then show ?thesis
      by (subst reassign_batches.simps) simp
  next
    case True
    then have m: "0 < m" by (simp add: m_def)
    have cond: "0 < batch_size \<and> i < length document_ids" using bs True by simp
    have lb: "length batch = min n m" by (simp add: batch_def n_def m_def min_def)
    have rest: "length document_ids - (i + n) = m - n" by (simp add: m_def)
    show ?thesis
    proof (cases "bulk_edit srv h1")
      case Ok
      from "2.IH"(1)[OF cond batch_def h1_def Ok bs] obtain ok new where
        r: "reassign_batches srv document_ids target batch_size (i + nat batch_size) success h1
              = (Inr ok, h1 @ new)" and l: "length new \<le> (m - n) * n"
        unfolding n_def[symmetric] rest by blast
      have "reassign_batches srv document_ids target batch_size i success h
              = (Inr ok, h @ (BulkEdit batch target # new))"
        using cond Ok r by (subst reassign_batches.simps) (simp add: batch_def h1_def Let_def)
      moreover have "length (BulkEdit batch target # new) \<le> m * n"
        using request_bound_step[OF n m _ l, of 0] by simp
      ultimately show ?thesis unfolding m_def n_def by blast
    next
      case RequestError
      from "2.IH"(5)[OF cond batch_def h1_def RequestError bs] obtain ok new where
        r: "reassign_batches srv document_ids target batch_size (i + nat batch_size) False h1
              = (Inr ok, h1 @ new)" and l: "length new \<le> (m - n) * n"
        unfolding n_def[symmetric] rest by blast
      have "reassign_batches srv document_ids target batch_size i success h
              = (Inr ok, h @ (BulkEdit batch target # new))"
        using cond RequestError r
        by (subst reassign_batches.simps) (simp add: batch_def h1_def Let_def)
      moreover have "length (BulkEdit batch target # new) \<le> m * n"
        using request_bound_step[OF n m _ l, of 0] by simp
      ultimately show ?thesis unfolding m_def n_def by blast
    next
      case Timeout
      show ?thesis
      proof (cases "10 < batch_size")
        case False
        from "2.IH"(4)[OF cond batch_def h1_def Timeout False bs] obtain ok new where
          r: "reassign_batches srv document_ids target batch_size (i + nat batch_size) False h1
                = (Inr ok, h1 @ new)" and l: "length new \<le> (m - n) * n"
          unfolding n_def[symmetric] rest by blast
        have "reassign_batches srv document_ids target batch_size i success h
                = (Inr ok, h @ (BulkEdit batch target # new))"
          using cond Timeout False r
          by (subst reassign_batches.simps) (simp add: batch_def h1_def Let_def)
        moreover have "length (BulkEdit batch target # new) \<le> m * n"
          using request_bound_step[OF n m _ l, of 0] by simp
        ultimately show ?thesis unfolding m_def n_def by blast
      next
        case True
        then have half: "1 \<le> batch_size div 2" by simp
        from "2.IH"(2)[OF cond batch_def h1_def Timeout True half] obtain ok1 new1 where
          r1: "bulk_reassign_documents srv h1 batch target (batch_size div 2) = (Inr ok1, h1 @ new1)"
          and l1: "length new1 \<le> length batch * nat (batch_size div 2)" by blast
        from "2.IH"(3)[OF cond batch_def h1_def Timeout True r1[symmetric] refl bs]
        obtain ok new where
          r: "reassign_batches srv document_ids target batch_size (i + nat batch_size)
                (if \<not> ok1 then False else success) (h1 @ new1) = (Inr ok, (h1 @ new1) @ new)"
          and l: "length new \<le> (m - n) * n"
          unfolding n_def[symmetric] rest by blast
        have "reassign_batches srv document_ids target batch_size i success h
                = (Inr ok, h @ (BulkEdit batch target # new1 @ new))"
          using cond Timeout True r r1
          by (subst reassign_batches.simps) (simp add: batch_def h1_def Let_def)
        moreover have "nat (batch_size div 2) \<le> n - 1" using bs by (simp add: n_def)
        then have "length new1 \<le> min n m * (n - 1)"
          using l1 lb by (metis le_trans mult_le_mono2)
        then have "length (BulkEdit batch target # new1 @ new) \<le> m * n"
          using request_bound_step[OF n m _ l, of "length new1"] by simp
        ultimately show ?thesis unfolding m_def n_def by blast
      qed
    qed
  qed
qed


lemma loop_outcomes:
  assumes bs: "1 \<le> batch_size"
  shows "reassign_batches srv document_ids target batch_size i success h =
     (case batch_outcomes srv h (batches (nat batch_size) (drop i document_ids)) target batch_size of
        (oks, h') \<Rightarrow> (Inr (success \<and> list_all id oks), h'))"
proof (induction "length document_ids - i" arbitrary: i success h rule: less_induct)
  case less
  define n where "n = nat batch_size"
  have n: "0 < n" using bs by (simp add: n_def)
  show ?case
  proof (cases "i < length document_ids")
    case False
    then show ?thesis
      by (subst reassign_batches.simps) simp
  next
    case True
    define batch where "batch = take n (drop i document_ids)"
    define h1 where "h1 = h @ [BulkEdit batch target]"
    have split: "batches n (drop i document_ids) = batch # batches n (drop (i + n) document_ids)"
      using True n by (simp add: batches_step batch_def add.commute)
    have IH: "reassign_batches srv document_ids target batch_size (i + n) s g =
        (case batch_outcomes srv g (batches n (drop (i + n) document_ids)) target batch_size of
           (oks, h') \<Rightarrow> (Inr (s \<and> list_all id oks), h'))" for s g
      using less[of "i + n" s g] True n by (simp add: n_def)
    have unfold: "reassign_batches srv document_ids target batch_size i success h =
       (case bulk_edit srv h1 of
          Ok \<Rightarrow> reassign_batches srv document_ids target batch_size (i + n) success h1
        | Timeout \<Rightarrow>
            if batch_size > 10 then
              (case bulk_reassign_documents srv h1 batch target (batch_size div 2) of
                 (Inl e, h2) \<Rightarrow> (Inl e, h2)
               | (Inr smaller_batch_success, h2) \<Rightarrow>
                   reassign_batches srv document_ids target batch_size (i + n)
                     (if \<not> smaller_batch_success then False else success) h2)
            else reassign_batches srv document_ids target batch_size (i + n) False h1
        | RequestError \<Rightarrow> reassign_batches srv document_ids target batch_size (i + n) False h1)"
      unfolding h1_def batch_def n_def using True bs
      by (subst reassign_batches.simps) (simp add: Let_def)
    show ?thesis
    proof (cases "bulk_edit srv h1")
      case Ok
      then show ?thesis
        unfolding unfold n_def[symmetric] split
        by (simp add: IH h1_def[symmetric] split: prod.splits)
    next
      case RequestError
      then show ?thesis
        unfolding unfold n_def[symmetric] split
        by (simp add: IH h1_def[symmetric] split: prod.splits)
    next
      case Timeout
      show ?thesis
      proof (cases "10 < batch_size")
        case False
        with Timeout show ?thesis
          unfolding unfold n_def[symmetric] split
          by (simp add: IH h1_def[symmetric] split: prod.splits)
      next
        case True
        then have "1 \<le> batch_size div 2" by simp
        from bulk_total[OF this, of srv h1 batch target] obtain ok1 new1 where
          r1: "bulk_reassign_documents srv h1 batch target (batch_size div 2) = (Inr ok1, h1 @ new1)"
          by blast
        with Timeout True show ?thesis
          unfolding unfold n_def[symmetric] split
          by (simp add: IH h1_def[symmetric] split: prod.splits)
      qed
    qed
  qed
qed

lemma bulk_outcomes:
  assumes "1 \<le> batch_size"
  shows "bulk_reassign_documents srv h document_ids target batch_size =
     (case batch_outcomes srv h (batches (nat batch_size) document_ids) target batch_size of
        (oks, h') \<Rightarrow> (Inr (list_all id oks), h'))"
proof (cases "document_ids = []")
  case True
  then show ?thesis by (subst bulk_reassign_documents.simps) simp
next
  case False
  with assms show ?thesis
    using loop_outcomes[OF assms, of srv document_ids target 0 True h]
    by (subst bulk_reassign_documents.simps) simp
qed


lemma batches_nth:
  "0 < n \<Longrightarrow> k < length (batches n xs) \<Longrightarrow> batches n xs ! k = take n (drop (k * n) xs)"
proof (induction n xs arbitrary: k rule: batches.induct)
  case (1 n xs)
  show ?case
  proof (cases "xs = []")
    case True
    with 1(3) show ?thesis by simp
  next
    case False
    with 1(2) have step: "batches n xs = take n xs # batches n (drop n xs)"
      by (simp add: batches_step)
    show ?thesis
    proof (cases k)
      case 0
      then show ?thesis by (simp add: step)
    next
      case (Suc k')
      with 1(3) step have "k' < length (batches n (drop n xs))" by simp
      with 1(1)[of k'] 1(2) False
      have "batches n (drop n xs) ! k' = take n (drop (k' * n) (drop n xs))" by simp
      then show ?thesis by (simp add: step Suc add.commute)
    qed
  qed
qed

lemma batch_outcomes_all_ok:
  "(\<forall>k<length bt. bulk_edit srv (h @ map (\<lambda>b. BulkEdit b target) (take (Suc k) bt)) = Ok) \<Longrightarrow>
     batch_outcomes srv h bt target batch_size =
       (replicate (length bt) True, h @ map (\<lambda>b. BulkEdit b target) bt)"
proof (induction bt arbitrary: h)
  case Nil
  then show ?case by simp
next
  case (Cons b bt)
  from Cons.prems have first: "bulk_edit srv (h @ [BulkEdit b target]) = Ok"
    by (auto dest: spec[of _ 0])
  have "\<forall>k<length bt. bulk_edit srv ((h @ [BulkEdit b target]) @
            map (\<lambda>b. BulkEdit b target) (take (Suc k) bt)) = Ok"
  proof (intro allI impI)
    fix k assume "k < length bt"
    with Cons.prems have "bulk_edit srv (h @ map (\<lambda>b. BulkEdit b target) (take (Suc (Suc k)) (b # bt))) = Ok"
      by (auto dest: spec[of _ "Suc k"])
    then show "bulk_edit srv ((h @ [BulkEdit b target]) @
            map (\<lambda>b. BulkEdit b target) (take (Suc k) bt)) = Ok" by simp
  qed
  from Cons.IH[OF this] first show ?case by simp
qed

lemma batch_count_is_ceiling:
  assumes "0 < n"
  shows "int ((m + n - 1) div n) = \<lceil>(of_nat m :: rat) / of_nat n\<rceil>"
proof -
  define q where "q = (m + n - 1) div n"
  define r where "r = (m + n - 1) mod n"
  have eq: "m + n - 1 = q * n + r" by (simp add: q_def r_def)
  have r: "r < n" using assms by (simp add: r_def)
  have up: "m \<le> q * n" using eq r by linarith
  have lo: "q * n < m + n" using eq r assms by linarith
  have "(of_nat m :: rat) \<le> of_nat (q * n)" using up of_nat_le_iff by blast
  then have 1: "(of_nat m :: rat) / of_nat n \<le> of_int (int q)"
    using assms by (simp add: pos_divide_le_eq)
  have "(of_nat (q * n) :: rat) < of_nat (m + n)" using lo of_nat_less_iff by blast
  then have "(of_nat q - 1) * of_nat n < (of_nat m :: rat)"
    by (simp add: algebra_simps)
  then have "of_nat q - 1 < (of_nat m :: rat) / of_nat n"
    using assms by (simp only: pos_less_divide_eq of_nat_0_less_iff)
  then have 2: "of_int (int q) - 1 < (of_nat m :: rat) / of_nat n"
    by simp
  from 1 2 show ?thesis
    unfolding q_def[symmetric] by (intro ceiling_unique[symmetric])
qed

lemma batch_outcomes_extends:
  "\<exists>new. snd (batch_outcomes w h bt target batch_size) = h @ new
      \<and> (\<forall>b bt'. bt = b # bt' \<longrightarrow> (\<exists>more. new = BulkEdit b target # more))"
proof (induction bt arbitrary: h)
  case Nil
  then show ?case by simp
next
  case (Cons b bt)
  define h1 where "h1 = h @ [BulkEdit b target]"
  define step where "step =
       (case bulk_edit w h1 of
          Ok \<Rightarrow> (True, h1)
        | Timeout \<Rightarrow>
            if batch_size > 10 then
              (case bulk_reassign_documents w h1 b target (batch_size div 2) of
                 (r, h2) \<Rightarrow> (r = Inr True, h2))
            else (False, h1)
        | RequestError \<Rightarrow> (False, h1))"
  have "\<exists>new1. snd step = h1 @ new1"
  proof (cases "bulk_edit w h1 = Timeout \<and> batch_size > 10")
    case True
    then have "10 < batch_size" by simp
    then have "1 \<le> batch_size div 2" by simp
    from bulk_total[OF this, of w h1 b target] True show ?thesis
      by (auto simp: step_def)
  next
    case False
    then show ?thesis by (cases "bulk_edit w h1") (auto simp: step_def)
  qed
  then obtain new1 where s: "snd step = h1 @ new1" by blast
  from Cons.IH[of "h1 @ new1"] obtain new2 where
    "snd (batch_outcomes w (h1 @ new1) bt target batch_size) = (h1 @ new1) @ new2" by blast
  with s have "snd (batch_outcomes w h (b # bt) target batch_size) = h @ (BulkEdit b target # new1 @ new2)"
    unfolding batch_outcomes.simps Let_def h1_def[symmetric] step_def[symmetric]
    by (simp add: split_beta h1_def)
  then show ?case by blast
qed

lemma bulk_first_request:
  assumes "1 \<le> batch_size" "document_ids \<noteq> []"
  shows "\<exists>ok new. bulk_reassign_documents w h document_ids target batch_size
           = (Inr ok, h @ BulkEdit (take (nat batch_size) document_ids) target # new)"
proof -
  define n where "n = nat batch_size"
  have n: "0 < n" using assms(1) by (simp add: n_def)
  have split: "batches n document_ids = take n document_ids # batches n (drop n document_ids)"
    using n assms(2) by (simp add: batches_step)
  from batch_outcomes_extends[of w h "batches n document_ids" target batch_size] split
  obtain more where
    "snd (batch_outcomes w h (batches n document_ids) target batch_size)
       = h @ BulkEdit (take n document_ids) target # more"
    by auto
  then show ?thesis
    using bulk_outcomes[OF assms(1), of w h document_ids target]
    by (auto simp: n_def split: prod.splits)
qed

lemma batches_drop: "0 < n \<Longrightarrow> batches n (drop (k * n) xs) = drop k (batches n xs)"
proof (induction k arbitrary: xs)
  case 0
  then show ?case by simp
next
  case (Suc k)
  show ?case
  proof (cases "xs = []")
    case True
    then show ?thesis by simp
  next
    case False
    have "drop (Suc k * n) xs = drop (k * n) (drop n xs)" by (simp add: add.commute)
    with Suc.IH[OF Suc.prems, of "drop n xs"] False Suc.prems show ?thesis
      by (simp add: batches_step[of n xs])
  qed
qed

lemma batches_take: "0 < n \<Longrightarrow> batches n (take (k * n) xs) = take k (batches n xs)"
proof (induction k arbitrary: xs)
  case 0
  then show ?case by simp
next
  case (Suc k)
  show ?case
  proof (cases "xs = []")
    case True
    then show ?thesis by simp
  next
    case False
    with Suc.prems have ne: "take (Suc k * n) xs \<noteq> []" by simp
    have 1: "take n (take (Suc k * n) xs) = take n xs" by (simp add: min_def)
    have 2: "drop n (take (Suc k * n) xs) = take (k * n) (drop n xs)" by (simp add: drop_take)
    have "batches n (take (Suc k * n) xs)
        = take n xs # batches n (take (k * n) (drop n xs))"
      using batches_step[OF Suc.prems ne] by (simp only: 1 2)
    also have "\<dots> = take n xs # take k (batches n (drop n xs))"
      by (simp only: Suc.IH[OF Suc.prems])
    also have "\<dots> = take (Suc k) (batches n xs)"
      using False Suc.prems by (simp add: batches_step[of n xs])
    finally show ?thesis .
  qed
qed

lemma batch_outcomes_append:
  "batch_outcomes srv h (xs @ ys) target batch_size =
     (case batch_outcomes srv h xs target batch_size of
        (oks1, h1) \<Rightarrow>
          (case batch_outcomes srv h1 ys target batch_size of
             (oks2, h2) \<Rightarrow> (oks1 @ oks2, h2)))"
  by (induction xs arbitrary: h) (simp_all add: Let_def split: prod.splits)

subsection \<open>Claims about the batched reassignment\<close>

text \<open>
  \<^bold>\<open>C10\<close>. For every history, every list of document ids and every \<open>batch_size \<ge> 1\<close>,
  \<open>bulk_reassign_documents\<close> returns a boolean (it is a total function, and the
  \<^verbatim>\<open>ValueError\<close> of a zero step cannot occur), having only appended requests to the
  history, at most \<open>length document_ids * batch_size\<close> of them. The retry, taken only when
  \<open>batch_size > 10\<close>, runs with \<open>batch_size div 2\<close>, which is at least 1 and strictly
  smaller than \<open>batch_size\<close>.
\<close>

theorem bulk_reassign_documents_terminates:
  assumes "1 \<le> batch_size"
  shows "\<exists>ok new.
     bulk_reassign_documents srv h document_ids target batch_size = (Inr ok, h @ new)
     \<and> length new \<le> length document_ids * nat batch_size
     \<and> (10 < batch_size \<longrightarrow> 1 \<le> batch_size div 2 \<and> batch_size div 2 < batch_size)"
  using bulk_total[OF assms, of srv h document_ids target] by auto

theorem bulk_reassign_documents_terminates_witness:
  "\<exists>ok new.
     bulk_reassign_documents (mock_world [Timeout, Timeout] [] ''n'') [] [1, 2, 3] 7 20
       = (Inr ok, [] @ new)
     \<and> length new \<le> length [1, 2, 3 :: int] * nat 20
     \<and> (10 :: int) < 20 \<and> (1 :: int) \<le> 20 div 2 \<and> (20 :: int) div 2 < 20"
  using bulk_reassign_documents_terminates
          [of 20 "mock_world [Timeout, Timeout] [] ''n''" "[]" "[1, 2, 3]" 7]
  by simp

text \<open>
  \<^bold>\<open>C1\<close>. Take any batch of the run: the \<open>k\<close>-th slice \<open>batch\<close> of the document ids,
  with the ids \<open>earlier\<close> before it and \<open>later\<close> after it (\<open>batch_size \<ge> 1\<close>). The
  batches before it are processed as a run of their own on \<open>earlier\<close>, which returns a
  flag \<open>before\<close> and has sent the requests \<open>sent\<close> (for the first batch: \<open>True\<close> and no
  request); then the request for \<open>batch\<close> is sent, giving the history \<open>h1\<close>.
  \<^item> If it is answered \<open>Ok\<close>, the ids \<open>later\<close> are processed from \<open>h1\<close> and the result is
    the conjunction of \<open>before\<close> and their flag.
  \<^item> If it times out and \<open>batch_size > 10\<close>, the same batch (same ids, same order) is
    reassigned by a recursive call with \<open>batch_size div 2\<close>, whose first request carries
    the first \<open>batch_size div 2\<close> ids of the batch; the ids \<open>later\<close> are processed after
    the retry, and the result is the conjunction of \<open>before\<close>, the retry's flag and the
    flag of the later batches.
  \<^item> If it times out and \<open>batch_size \<le> 10\<close>, or fails otherwise, no retry is made: the ids
    \<open>later\<close> are processed from \<open>h1\<close> and the result is \<open>False\<close>.
  In every case the history returned extends \<open>h1\<close>: nothing is aborted or forgotten.
\<close>

theorem every_batch_retry_or_failure:
  assumes "1 \<le> batch_size" and "k < length (batches (nat batch_size) document_ids)"
  shows
    "let n = nat batch_size;
         earlier = take (k * n) document_ids;
         batch = take n (drop (k * n) document_ids);
         later = drop (Suc k * n) document_ids
     in \<exists>before sent.
          bulk_reassign_documents srv h earlier target batch_size = (Inr before, h @ sent)
        \<and> (k = 0 \<longrightarrow> before \<and> sent = [])
        \<and> (let h1 = h @ sent @ [BulkEdit batch target]
           in (bulk_edit srv h1 = Ok \<longrightarrow>
                 (\<exists>others more.
                    bulk_reassign_documents srv h1 later target batch_size = (Inr others, h1 @ more) \<and>
                    bulk_reassign_documents srv h document_ids target batch_size
                      = (Inr (before \<and> others), h1 @ more)))
            \<and> (bulk_edit srv h1 = Timeout \<and> 10 < batch_size \<longrightarrow>
                 (\<exists>retry again others more.
                    bulk_reassign_documents srv h1 batch target (batch_size div 2)
                      = (Inr retry, h1 @ BulkEdit (take (nat (batch_size div 2)) batch) target # again) \<and>
                    bulk_reassign_documents srv
                        (h1 @ BulkEdit (take (nat (batch_size div 2)) batch) target # again)
                        later target batch_size
                      = (Inr others,
                         h1 @ BulkEdit (take (nat (batch_size div 2)) batch) target # again @ more) \<and>
                    bulk_reassign_documents srv h document_ids target batch_size
                      = (Inr (before \<and> retry \<and> others),
                         h1 @ BulkEdit (take (nat (batch_size div 2)) batch) target # again @ more)))
            \<and> (bulk_edit srv h1 = Timeout \<and> batch_size \<le> 10 \<longrightarrow>
                 (\<exists>others more.
                    bulk_reassign_documents srv h1 later target batch_size = (Inr others, h1 @ more) \<and>
                    bulk_reassign_documents srv h document_ids target batch_size
                      = (Inr False, h1 @ more)))
            \<and> (bulk_edit srv h1 = RequestError \<longrightarrow>
                 (\<exists>others more.
                    bulk_reassign_documents srv h1 later target batch_size = (Inr others, h1 @ more) \<and>
                    bulk_reassign_documents srv h document_ids target batch_size
                      = (Inr False, h1 @ more))))"
proof -
  define n where "n = nat batch_size"
  define bt where "bt = batches n document_ids"
  define earlier where "earlier = take (k * n) document_ids"
  define batch where "batch = take n (drop (k * n) document_ids)"
  define later where "later = drop (Suc k * n) document_ids"
  have n: "0 < n" using assms(1) by (simp add: n_def)
  have k: "k < length bt" using assms(2) by (simp add: bt_def n_def)
  have b_earlier: "batches n earlier = take k bt"
    by (simp add: earlier_def bt_def batches_take[OF n])
  have b_later: "batches n later = drop (Suc k) bt"
    by (simp only: later_def bt_def batches_drop[OF n])
  have b_batch: "bt ! k = batch"
    using batches_nth[OF n k[unfolded bt_def]] by (simp add: bt_def batch_def)
  have split: "bt = take k bt @ batch # drop (Suc k) bt"
    using id_take_nth_drop[OF k] b_batch by simp
  have batch_ne: "batch \<noteq> []"
    using batches_bounds[of batch n document_ids] k b_batch nth_mem[OF k] by (simp add: bt_def)
  have run: "bulk_reassign_documents srv g xs target batch_size =
      (case batch_outcomes srv g (batches n xs) target batch_size of
         (oks, h') \<Rightarrow> (Inr (list_all id oks), h'))" for g xs
    using bulk_outcomes[OF assms(1), of srv g xs target] by (simp add: n_def)
  obtain oks1 hk where o1: "batch_outcomes srv h (take k bt) target batch_size = (oks1, hk)"
    by (cases "batch_outcomes srv h (take k bt) target batch_size")
  from batch_outcomes_extends[of srv h "take k bt" target batch_size] o1
  obtain sent where hk: "hk = h @ sent" by auto
  define before where "before = list_all id oks1"
  have r_earlier: "bulk_reassign_documents srv h earlier target batch_size = (Inr before, h @ sent)"
    by (simp add: run b_earlier o1 before_def hk)
  have first: "before \<and> sent = []" if "k = 0"
    using that o1 hk by (auto simp: before_def)
  define h1 where "h1 = h @ sent @ [BulkEdit batch target]"
  have tail: "\<exists>oks more.
      batch_outcomes srv g (drop (Suc k) bt) target batch_size = (oks, g @ more)
      \<and> bulk_reassign_documents srv g later target batch_size = (Inr (list_all id oks), g @ more)"
    for g
  proof -
    from batch_outcomes_extends[of srv g "drop (Suc k) bt" target batch_size]
    obtain more where "snd (batch_outcomes srv g (drop (Suc k) bt) target batch_size) = g @ more"
      by blast
    then obtain oks where "batch_outcomes srv g (drop (Suc k) bt) target batch_size = (oks, g @ more)"
      by (cases "batch_outcomes srv g (drop (Suc k) bt) target batch_size") simp
    then show ?thesis by (auto simp add: run b_later)
  qed
  have whole: "bulk_reassign_documents srv h document_ids target batch_size =
      (case batch_outcomes srv (h @ sent) (batch # drop (Suc k) bt) target batch_size of
         (oks2, h2) \<Rightarrow> (Inr (before \<and> list_all id oks2), h2))"
  proof -
    have "batch_outcomes srv h bt target batch_size =
        (case batch_outcomes srv (h @ sent) (batch # drop (Suc k) bt) target batch_size of
           (oks2, h2) \<Rightarrow> (oks1 @ oks2, h2))"
      by (subst split, subst batch_outcomes_append) (simp add: o1 hk)
    then show ?thesis
      by (simp add: run[of h document_ids] bt_def[symmetric] before_def split: prod.splits)
  qed
  have ok_case: "\<exists>others more.
        bulk_reassign_documents srv h1 later target batch_size = (Inr others, h1 @ more) \<and>
        bulk_reassign_documents srv h document_ids target batch_size
          = (Inr (before \<and> others), h1 @ more)"
    if "bulk_edit srv h1 = Ok"
  proof -
    from tail[of h1] obtain oks more where
      o: "batch_outcomes srv h1 (drop (Suc k) bt) target batch_size = (oks, h1 @ more)"
      and t: "bulk_reassign_documents srv h1 later target batch_size
                = (Inr (list_all id oks), h1 @ more)"
      by blast
    have "bulk_reassign_documents srv h document_ids target batch_size
          = (Inr (before \<and> list_all id oks), h1 @ more)"
      using that o unfolding whole by (simp add: Let_def h1_def)
    with t show ?thesis by blast
  qed
  have fail_case: "\<exists>others more.
        bulk_reassign_documents srv h1 later target batch_size = (Inr others, h1 @ more) \<and>
        bulk_reassign_documents srv h document_ids target batch_size = (Inr False, h1 @ more)"
    if "(bulk_edit srv h1 = Timeout \<and> batch_size \<le> 10) \<or> bulk_edit srv h1 = RequestError"
  proof -
    from tail[of h1] obtain oks more where
      o: "batch_outcomes srv h1 (drop (Suc k) bt) target batch_size = (oks, h1 @ more)"
      and t: "bulk_reassign_documents srv h1 later target batch_size
                = (Inr (list_all id oks), h1 @ more)"
      by blast
    have "bulk_reassign_documents srv h document_ids target batch_size = (Inr False, h1 @ more)"
      using that o unfolding whole by (auto simp add: Let_def h1_def)
    with t show ?thesis by blast
  qed
  have retry_case: "\<exists>retry again others more.
        bulk_reassign_documents srv h1 batch target (batch_size div 2)
          = (Inr retry, h1 @ BulkEdit (take (nat (batch_size div 2)) batch) target # again) \<and>
        bulk_reassign_documents srv
            (h1 @ BulkEdit (take (nat (batch_size div 2)) batch) target # again)
            later target batch_size
          = (Inr others,
             h1 @ BulkEdit (take (nat (batch_size div 2)) batch) target # again @ more) \<and>
        bulk_reassign_documents srv h document_ids target batch_size
          = (Inr (before \<and> retry \<and> others),
             h1 @ BulkEdit (take (nat (batch_size div 2)) batch) target # again @ more)"
    if "bulk_edit srv h1 = Timeout" "10 < batch_size"
  proof -
    from that(2) have "1 \<le> batch_size div 2" by simp
    from bulk_first_request[OF this batch_ne, of srv h1 target] obtain retry again where
      r: "bulk_reassign_documents srv h1 batch target (batch_size div 2)
          = (Inr retry, h1 @ BulkEdit (take (nat (batch_size div 2)) batch) target # again)"
      by blast
    define h2 where "h2 = h1 @ BulkEdit (take (nat (batch_size div 2)) batch) target # again"
    from tail[of h2] obtain oks more where
      o: "batch_outcomes srv h2 (drop (Suc k) bt) target batch_size = (oks, h2 @ more)"
      and t: "bulk_reassign_documents srv h2 later target batch_size
                = (Inr (list_all id oks), h2 @ more)"
      by blast
    have "batch_outcomes srv (h @ sent) (batch # drop (Suc k) bt) target batch_size
          = (retry # oks, h2 @ more)"
      using that o r[folded h2_def] by (simp add: Let_def h1_def[symmetric])
    then have "bulk_reassign_documents srv h document_ids target batch_size
          = (Inr (before \<and> retry \<and> list_all id oks), h2 @ more)"
      unfolding whole by simp
    with t r show ?thesis unfolding h2_def by auto
  qed
  show ?thesis
    unfolding Let_def n_def[symmetric] earlier_def[symmetric] batch_def[symmetric]
      later_def[symmetric]
    apply (rule exI[of _ before], rule exI[of _ sent])
    unfolding h1_def[symmetric]
    using r_earlier first ok_case retry_case fail_case by blast
qed

theorem every_batch_retry_or_failure_witness:
  "(1 \<le> (20 :: int) \<and> 0 < length (batches (nat 20) [1, 2, 3 :: int])
     \<and> bulk_edit (mock_world [Timeout] [] ''n'') [BulkEdit [1, 2, 3] 7] = Timeout
     \<and> (\<exists>retry again others more.
           bulk_reassign_documents (mock_world [Timeout] [] ''n'') [BulkEdit [1, 2, 3] 7] [1, 2, 3] 7 10
             = (Inr retry, [BulkEdit [1, 2, 3] 7] @ BulkEdit [1, 2, 3] 7 # again) \<and>
           bulk_reassign_documents (mock_world [Timeout] [] ''n'') [] [1, 2, 3] 7 20
             = (Inr (retry \<and> others), [BulkEdit [1, 2, 3] 7] @ BulkEdit [1, 2, 3] 7 # again @ more)))
   \<and> (1 \<le> (2 :: int) \<and> 1 < length (batches (nat 2) [1, 2, 3 :: int])
     \<and> bulk_edit (mock_world [Ok, Timeout] [] ''n'') [BulkEdit [1, 2] 7, BulkEdit [3] 7] = Timeout
     \<and> (\<exists>more.
           bulk_reassign_documents (mock_world [Ok, Timeout] [] ''n'') [] [1, 2, 3] 7 2
             = (Inr False, [BulkEdit [1, 2] 7, BulkEdit [3] 7] @ more)))
   \<and> (bulk_edit (mock_world [RequestError, Ok] [] ''n'') [BulkEdit [1, 2] 7] = RequestError
     \<and> (\<exists>others more.
           bulk_reassign_documents (mock_world [RequestError, Ok] [] ''n'') [BulkEdit [1, 2] 7] [3] 7 2
             = (Inr others, [BulkEdit [1, 2] 7] @ more) \<and>
           bulk_reassign_documents (mock_world [RequestError, Ok] [] ''n'') [] [1, 2, 3] 7 2
             = (Inr False, [BulkEdit [1, 2] 7] @ more)))"
proof -
  define W1 where "W1 = mock_world [Timeout] [] ''n''"
  define W2 where "W2 = mock_world [Ok, Timeout] [] ''n''"
  define W3 where "W3 = mock_world [RequestError, Ok] [] ''n''"
  have bt20: "batches 20 [1, 2, 3 :: int] = [[1, 2, 3]]"
    by (simp add: batches.simps)
  have bt2: "batches 2 [1, 2, 3 :: int] = [[1, 2], [3]]"
    by (simp add: batches.simps)
  have r1: "bulk_edit W1 [BulkEdit [1, 2, 3] 7] = Timeout"
    by (simp add: W1_def mock_world_def)
  have r2: "bulk_edit W2 [BulkEdit [1, 2] 7, BulkEdit [3] 7] = Timeout"
    by (simp add: W2_def mock_world_def)
  have r3: "bulk_edit W3 [BulkEdit [1, 2] 7] = RequestError"
    by (simp add: W3_def mock_world_def)
  have first: "bulk_reassign_documents W2 [] [1, 2] 7 2 = (Inr True, [BulkEdit [1, 2] 7])"
    by (simp add: bulk_reassign_documents.simps reassign_batches.simps W2_def mock_world_def)
  have a: "\<exists>retry again others more.
           bulk_reassign_documents W1 [BulkEdit [1, 2, 3] 7] [1, 2, 3] 7 10
             = (Inr retry, [BulkEdit [1, 2, 3] 7] @ BulkEdit [1, 2, 3] 7 # again) \<and>
           bulk_reassign_documents W1 [] [1, 2, 3] 7 20
             = (Inr (retry \<and> others), [BulkEdit [1, 2, 3] 7] @ BulkEdit [1, 2, 3] 7 # again @ more)"
    using every_batch_retry_or_failure[of 20 0 "[1, 2, 3]" W1 "[]" 7]
    by (simp add: bt20 Let_def r1) (elim exE conjE, simp, blast)
  have b: "\<exists>more.
           bulk_reassign_documents W2 [] [1, 2, 3] 7 2
             = (Inr False, [BulkEdit [1, 2] 7, BulkEdit [3] 7] @ more)"
    using every_batch_retry_or_failure[of 2 1 "[1, 2, 3]" W2 "[]" 7]
    by (simp add: bt2 Let_def first r2) blast
  have c: "\<exists>others more.
           bulk_reassign_documents W3 [BulkEdit [1, 2] 7] [3] 7 2
             = (Inr others, [BulkEdit [1, 2] 7] @ more) \<and>
           bulk_reassign_documents W3 [] [1, 2, 3] 7 2
             = (Inr False, [BulkEdit [1, 2] 7] @ more)"
    using every_batch_retry_or_failure[of 2 0 "[1, 2, 3]" W3 "[]" 7]
    by (simp add: bt2 Let_def r3) auto
  show ?thesis
    using a b c r1 r2 r3 unfolding W1_def W2_def W3_def by (simp add: bt20 bt2)
qed

text \<open>
  \<^bold>\<open>C2\<close>. An empty list of document ids gives \<open>True\<close> and leaves the history as it was:
  no request is made. For \<open>batch_size \<ge> 1\<close> the ids are cut into the batches
  \<open>batches (nat batch_size) document_ids\<close>: batch \<open>k\<close> is the slice of length at most
  \<open>batch_size\<close> starting at \<open>k * batch_size\<close>, the batches are non-empty, their
  concatenation is the original list, and there are \<open>\<lceil>n / batch_size\<rceil>\<close> of them. When
  every one of these requests is answered \<open>Ok\<close>, exactly these requests are made, in this
  order, and the result is \<open>True\<close>. In general the result is \<open>True\<close> if and only if every
  batch ultimately succeeded (\<open>batch_outcomes\<close>: directly, or through the retry).
\<close>

theorem bulk_reassign_documents_batches:
  "bulk_reassign_documents srv h [] target batch_size = (Inr True, h) \<and>
   (1 \<le> batch_size \<longrightarrow>
     (let n = nat batch_size;
          bt = batches n document_ids;
          req = (\<lambda>b. BulkEdit b target)
      in concat bt = document_ids
       \<and> int (length bt) = \<lceil>(of_nat (length document_ids) :: rat) / of_int batch_size\<rceil>
       \<and> (\<forall>k<length bt. bt ! k = take n (drop (k * n) document_ids)
                          \<and> bt ! k \<noteq> [] \<and> length (bt ! k) \<le> n)
       \<and> ((\<forall>k<length bt. bulk_edit srv (h @ map req (take (Suc k) bt)) = Ok) \<longrightarrow>
            bulk_reassign_documents srv h document_ids target batch_size
              = (Inr True, h @ map req bt))
       \<and> (fst (bulk_reassign_documents srv h document_ids target batch_size) = Inr True
            \<longleftrightarrow> list_all id (fst (batch_outcomes srv h bt target batch_size)))))"
proof (intro conjI impI)
  show "bulk_reassign_documents srv h [] target batch_size = (Inr True, h)"
    by (subst bulk_reassign_documents.simps) simp
next
  assume bs: "1 \<le> batch_size"
  define n where "n = nat batch_size"
  define bt where "bt = batches n document_ids"
  have n: "0 < n" using bs by (simp add: n_def)
  have "of_int batch_size = (of_nat n :: rat)" using bs by (simp add: n_def)
  then have count: "int (length bt) = \<lceil>(of_nat (length document_ids) :: rat) / of_int batch_size\<rceil>"
    using batch_count_is_ceiling[OF n, of "length document_ids"]
    by (simp add: bt_def length_batches[OF n])
  have slices: "\<forall>k<length bt. bt ! k = take n (drop (k * n) document_ids)
                          \<and> bt ! k \<noteq> [] \<and> length (bt ! k) \<le> n"
  proof (intro allI impI)
    fix k assume k: "k < length bt"
    then have "bt ! k \<in> set (batches n document_ids)" by (simp add: bt_def)
    with batches_bounds[of "bt ! k" n document_ids] batches_nth[OF n, of k document_ids] k
    show "bt ! k = take n (drop (k * n) document_ids) \<and> bt ! k \<noteq> [] \<and> length (bt ! k) \<le> n"
      by (simp add: bt_def)
  qed
  have whole: "bulk_reassign_documents srv h document_ids target batch_size =
     (case batch_outcomes srv h bt target batch_size of
        (oks, h') \<Rightarrow> (Inr (list_all id oks), h'))"
    using bulk_outcomes[OF bs, of srv h document_ids target] by (simp add: bt_def n_def)
  have all_ok: "bulk_reassign_documents srv h document_ids target batch_size
              = (Inr True, h @ map (\<lambda>b. BulkEdit b target) bt)"
    if "\<forall>k<length bt. bulk_edit srv (h @ map (\<lambda>b. BulkEdit b target) (take (Suc k) bt)) = Ok"
    using batch_outcomes_all_ok[OF that, of batch_size]
    by (simp add: whole list_all_iff)
  have iff: "fst (bulk_reassign_documents srv h document_ids target batch_size) = Inr True
            \<longleftrightarrow> list_all id (fst (batch_outcomes srv h bt target batch_size))"
    by (simp add: whole split: prod.splits)
  show "let n = nat batch_size;
          bt = batches n document_ids;
          req = (\<lambda>b. BulkEdit b target)
      in concat bt = document_ids
       \<and> int (length bt) = \<lceil>(of_nat (length document_ids) :: rat) / of_int batch_size\<rceil>
       \<and> (\<forall>k<length bt. bt ! k = take n (drop (k * n) document_ids)
                          \<and> bt ! k \<noteq> [] \<and> length (bt ! k) \<le> n)
       \<and> ((\<forall>k<length bt. bulk_edit srv (h @ map req (take (Suc k) bt)) = Ok) \<longrightarrow>
            bulk_reassign_documents srv h document_ids target batch_size
              = (Inr True, h @ map req bt))
       \<and> (fst (bulk_reassign_documents srv h document_ids target batch_size) = Inr True
            \<longleftrightarrow> list_all id (fst (batch_outcomes srv h bt target batch_size)))"
    unfolding Let_def n_def[symmetric] bt_def[symmetric]
    using concat_batches[OF n, of document_ids, folded bt_def] count slices all_ok iff
    by blast
qed

theorem bulk_reassign_documents_batches_witness:
  "bulk_reassign_documents (mock_world [] [] ''n'') [] [] 7 2 = (Inr True, [])
   \<and> (1 :: int) \<le> 2
   \<and> batches 2 [1, 2, 3 :: int] = [[1, 2], [3]]
   \<and> int (length (batches 2 [1, 2, 3 :: int])) = \<lceil>(3 :: rat) / 2\<rceil>
   \<and> bulk_reassign_documents (mock_world [] [] ''n'') [] [1, 2, 3] 7 2
        = (Inr True, [BulkEdit [1, 2] 7, BulkEdit [3] 7])"
proof -
  have bt: "batches 2 [1, 2, 3 :: int] = [[1, 2], [3]]"
    by (simp add: batches.simps)
  have ok: "bulk_edit (mock_world [] [] ''n'') g = Ok" for g
    by (simp add: mock_world_def)
  show ?thesis
    using bulk_reassign_documents_batches
            [of "mock_world [] [] ''n''" "[]" 7 2 "[1, 2, 3]"]
    by (simp add: Let_def bt ok)
qed

section \<open>Properties of merging\<close>

lemma merge_correspondents_total:
  "\<exists>ok new. merge_correspondents w h source_id target_id = (Inr ok, h @ ListDocuments source_id # new)"
proof (cases "collect_pages (list_documents w (h @ [ListDocuments source_id])) = []")
  case True
  then show ?thesis
    by (auto simp add: merge_correspondents_def get_correspondent_documents_def Let_def)
next
  case False
  from bulk_total[of 50 w "h @ [ListDocuments source_id]"
         "collect_pages (list_documents w (h @ [ListDocuments source_id]))" target_id]
  obtain ok new where
    "bulk_reassign_documents w (h @ [ListDocuments source_id])
       (collect_pages (list_documents w (h @ [ListDocuments source_id]))) target_id 50
      = (Inr ok, (h @ [ListDocuments source_id]) @ new)" by auto
  with False show ?thesis
    by (simp add: merge_correspondents_def get_correspondent_documents_def Let_def)
qed

lemma merge_each_extends:
  "\<exists>new. snd (merge_each w h sources target_id) = h @ new \<and> ListDocuments ` set sources \<subseteq> set new"
proof (induction sources arbitrary: h)
  case Nil
  then show ?case by simp
next
  case (Cons s sources)
  from merge_correspondents_total[of w h s target_id] obtain ok new1 where
    m: "merge_correspondents w h s target_id = (Inr ok, h @ ListDocuments s # new1)" by blast
  from Cons.IH[of "h @ ListDocuments s # new1"] obtain new2 where
    e: "snd (merge_each w (h @ ListDocuments s # new1) sources target_id)
          = (h @ ListDocuments s # new1) @ new2"
    and sub: "ListDocuments ` set sources \<subseteq> set new2" by blast
  have "snd (merge_each w h (s # sources) target_id) = h @ (ListDocuments s # new1 @ new2)"
    using m e by (simp add: split_beta)
  moreover have "ListDocuments ` set (s # sources) \<subseteq> set (ListDocuments s # new1 @ new2)"
    using sub by auto
  ultimately show ?case by blast
qed

lemma merge_sources_each:
  "\<exists>merged. merge_sources w cs t success merged_sources h =
     (Inr (success \<and> list_all id (fst (merge_each w h (map cid [c \<leftarrow> cs. cid c \<noteq> t]) t)), merged),
      snd (merge_each w h (map cid [c \<leftarrow> cs. cid c \<noteq> t]) t))"
proof (induction cs arbitrary: success merged_sources h)
  case Nil
  then show ?case by simp
next
  case (Cons c cs)
  show ?case
  proof (cases "cid c = t")
    case True
    with Cons.IH[of success merged_sources h] show ?thesis by simp
  next
    case False
    from merge_correspondents_total[of w h "cid c" t] obtain ok new where
      m: "merge_correspondents w h (cid c) t = (Inr ok, h @ ListDocuments (cid c) # new)" by blast
    show ?thesis
    proof (cases ok)
      case True
      with Cons.IH[of success "merged_sources @ [cid c]" "h @ ListDocuments (cid c) # new"] False m
      show ?thesis by (simp add: split_beta)
    next
      case False
      with Cons.IH[of False merged_sources "h @ ListDocuments (cid c) # new"] \<open>cid c \<noteq> t\<close> m
      show ?thesis by (simp add: split_beta)
    qed
  qed
qed

lemma delete_merged_extends: "\<exists>new. delete_merged w sources h = h @ new"
proof (induction sources arbitrary: h)
  case Nil
  then show ?case by simp
next
  case (Cons s sources)
  from Cons.IH[of "h @ [Delete s]"] show ?case
    by (auto simp: delete_correspondent_def Let_def)
qed

lemma py_max_from_first_maximum:
  "\<exists>pre post. best # xs = pre @ py_max_from key best xs # post
      \<and> (\<forall>c\<in>set pre. key c < key (py_max_from key best xs))
      \<and> (\<forall>c\<in>set post. key c \<le> key (py_max_from key best xs))"
proof (induction xs arbitrary: best)
  case Nil
  show ?case by (rule exI[of _ "[]"], rule exI[of _ "[]"]) simp
next
  case (Cons x xs)
  define t where "t = py_max_from key best (x # xs)"
  show ?case
  proof (cases "key x > key best")
    case True
    then have t: "t = py_max_from key x xs" by (simp add: t_def)
    from Cons.IH[of x] obtain pre post where
      d: "x # xs = pre @ t # post" and
      lt: "\<forall>c\<in>set pre. key c < key t" and le: "\<forall>c\<in>set post. key c \<le> key t"
      unfolding t by blast
    have "x \<in> set (pre @ t # post)" using d by (metis list.set_intros(1))
    with lt le have "key x \<le> key t" by auto
    with True have "key best < key t" by simp
    with d lt le have "best # x # xs = (best # pre) @ t # post
        \<and> (\<forall>c\<in>set (best # pre). key c < key t) \<and> (\<forall>c\<in>set post. key c \<le> key t)"
      by simp
    then show ?thesis unfolding t_def by blast
  next
    case False
    then have t: "t = py_max_from key best xs" by (simp add: t_def)
    from Cons.IH[of best] obtain pre post where
      d: "best # xs = pre @ t # post" and
      lt: "\<forall>c\<in>set pre. key c < key t" and le: "\<forall>c\<in>set post. key c \<le> key t"
      unfolding t by blast
    show ?thesis
    proof (cases pre)
      case Nil
      with d have "t = best" "post = xs" by simp_all
      with False le have "best # x # xs = [] @ t # (x # xs)
          \<and> (\<forall>c\<in>set []. key c < key t) \<and> (\<forall>c\<in>set (x # xs). key c \<le> key t)"
        by simp
      then show ?thesis unfolding t_def by blast
    next
      case (Cons p pre')
      with d have p: "p = best" and xs: "xs = pre' @ t # post" by simp_all
      from lt Cons p have "key best < key t" by simp
      with False have "key x < key t" by simp
      with lt le xs Cons p have "best # x # xs = (best # x # pre') @ t # post
          \<and> (\<forall>c\<in>set (best # x # pre'). key c < key t) \<and> (\<forall>c\<in>set post. key c \<le> key t)"
        by simp
      then show ?thesis unfolding t_def by blast
    qed
  qed
qed

text \<open>
  \<^bold>\<open>C8\<close>. For a group of at least two correspondents merged without an explicit target,
  the target \<open>t\<close> is a member with the maximum document count, and the first such member:
  every member before it has a strictly smaller count, every member after it a count
  that is not greater. A merge into \<open>t\<close> is then attempted for every member whose id is not
  the target's, in group order and whatever the earlier merges returned (the listing of
  each such member's documents is in the resulting history), and the result is the
  conjunction of the results of these merges.
\<close>

theorem merge_correspondent_group_target_and_conjunction:
  assumes "2 \<le> length grp"
  shows "\<exists>pre t post later.
     grp = pre @ t # post
     \<and> (\<forall>c\<in>set pre. doc_count c < doc_count t)
     \<and> (\<forall>c\<in>set post. doc_count c \<le> doc_count t)
     \<and> merge_correspondent_group w h grp None =
         (Inr (list_all id (fst (merge_each w h (map cid [c \<leftarrow> grp. cid c \<noteq> cid t]) (cid t)))),
          snd (merge_each w h (map cid [c \<leftarrow> grp. cid c \<noteq> cid t]) (cid t)) @ later)
     \<and> (\<forall>c\<in>set grp. cid c \<noteq> cid t \<longrightarrow>
           ListDocuments (cid c) \<in> set (snd (merge_correspondent_group w h grp None)))"
proof -
  from assms obtain x xs where grp: "grp = x # xs" by (cases grp) auto
  define t where "t = py_max_from doc_count x xs"
  from py_max_from_first_maximum[of x xs doc_count] obtain pre post where
    d: "grp = pre @ t # post" and
    lt: "\<forall>c\<in>set pre. doc_count c < doc_count t" and
    le: "\<forall>c\<in>set post. doc_count c \<le> doc_count t"
    unfolding t_def grp by blast
  define sources where "sources = map cid [c \<leftarrow> grp. cid c \<noteq> cid t]"
  define rs where "rs = fst (merge_each w h sources (cid t))"
  define h1 where "h1 = snd (merge_each w h sources (cid t))"
  from merge_sources_each[of w grp "cid t" True "[]" h] obtain merged where
    ms: "merge_sources w grp (cid t) True [] h = (Inr (list_all id rs, merged), h1)"
    unfolding sources_def rs_def h1_def by auto
  have "\<exists>later. merge_correspondent_group w h grp None = (Inr (list_all id rs), h1 @ later)"
  proof (cases "list_all id rs \<and> merged \<noteq> []")
    case False
    then have "merge_correspondent_group w h grp None = (Inr (list_all id rs), h1 @ [])"
      using assms ms by (auto simp: merge_correspondent_group_def grp t_def)
    then show ?thesis by blast
  next
    case True
    show ?thesis
    proof (cases "lower (stdin_line w (h1 @ [Input])) = ''y''")
      case False
      with True have "merge_correspondent_group w h grp None = (Inr (list_all id rs), h1 @ [Input])"
        using assms ms by (auto simp: merge_correspondent_group_def grp t_def Let_def)
      then show ?thesis by blast
    next
      case y: True
      from delete_merged_extends[of w merged "h1 @ [Input]"] obtain new where
        "delete_merged w merged (h1 @ [Input]) = (h1 @ [Input]) @ new" by blast
      with True y have "merge_correspondent_group w h grp None
          = (Inr (list_all id rs), h1 @ (Input # new))"
        using assms ms by (auto simp: merge_correspondent_group_def grp t_def Let_def)
      then show ?thesis by blast
    qed
  qed
  then obtain later where
    r: "merge_correspondent_group w h grp None = (Inr (list_all id rs), h1 @ later)" by blast
  from merge_each_extends[of w h sources "cid t"] obtain new where
    "h1 = h @ new" and "ListDocuments ` set sources \<subseteq> set new"
    unfolding h1_def by blast
  then have "\<forall>c\<in>set grp. cid c \<noteq> cid t \<longrightarrow>
           ListDocuments (cid c) \<in> set (snd (merge_correspondent_group w h grp None))"
    unfolding r by (auto simp: sources_def)
  with d lt le r show ?thesis
    unfolding rs_def h1_def sources_def by blast
qed

theorem merge_correspondent_group_target_and_conjunction_witness:
  "2 \<le> length example_group \<and>
   (\<exists>pre t post later.
     example_group = pre @ t # post
     \<and> cid t = 3
     \<and> list_all (\<lambda>c. doc_count c < doc_count t) pre
     \<and> list_all (\<lambda>c. doc_count c \<le> doc_count t) post
     \<and> merge_correspondent_group
           (mock_world [Ok, RequestError, Ok] [(1, [10, 11]), (2, [20]), (4, [40, 41])] ''n'')
           [] example_group None =
         (Inr (list_all id (fst (merge_each
                 (mock_world [Ok, RequestError, Ok] [(1, [10, 11]), (2, [20]), (4, [40, 41])] ''n'')
                 [] (map cid [c \<leftarrow> example_group. cid c \<noteq> cid t]) (cid t)))),
          snd (merge_each
                 (mock_world [Ok, RequestError, Ok] [(1, [10, 11]), (2, [20]), (4, [40, 41])] ''n'')
                 [] (map cid [c \<leftarrow> example_group. cid c \<noteq> cid t]) (cid t)) @ later))"
proof -
  have len: "2 \<le> length example_group" by (simp add: example_group_def)
  from merge_correspondent_group_target_and_conjunction[OF len,
         of "mock_world [Ok, RequestError, Ok] [(1, [10, 11]), (2, [20]), (4, [40, 41])] ''n''" "[]"]
  obtain pre t post later where
    d: "example_group = pre @ t # post" and
    lt: "\<forall>c\<in>set pre. doc_count c < doc_count t" and
    le: "\<forall>c\<in>set post. doc_count c \<le> doc_count t" and
    r: "merge_correspondent_group
           (mock_world [Ok, RequestError, Ok] [(1, [10, 11]), (2, [20]), (4, [40, 41])] ''n'')
           [] example_group None =
         (Inr (list_all id (fst (merge_each
                 (mock_world [Ok, RequestError, Ok] [(1, [10, 11]), (2, [20]), (4, [40, 41])] ''n'')
                 [] (map cid [c \<leftarrow> example_group. cid c \<noteq> cid t]) (cid t)))),
          snd (merge_each
                 (mock_world [Ok, RequestError, Ok] [(1, [10, 11]), (2, [20]), (4, [40, 41])] ''n'')
                 [] (map cid [c \<leftarrow> example_group. cid c \<noteq> cid t]) (cid t)) @ later)"
    by blast
  have "cid t = 3"
  proof -
    have "length pre < 4" using d by (auto simp: example_group_def dest: arg_cong[of _ _ length])
    then consider "pre = []" | "length pre = 1" | "length pre = 2" | "length pre = 3"
      by (cases pre) (auto simp: less_Suc_eq numeral_eq_Suc)
    then show ?thesis
    proof cases
      case 1
      with d le show ?thesis by (auto simp: example_group_def doc_count_def)
    next
      case 2
      then obtain a where "pre = [a]" by (cases pre) auto
      with d le show ?thesis by (auto simp: example_group_def doc_count_def)
    next
      case 3
      then obtain a b where "pre = [a, b]" by (cases pre; cases "tl pre") auto
      with d show ?thesis by (auto simp: example_group_def)
    next
      case 4
      then obtain a b c where "pre = [a, b, c]"
        by (cases pre; cases "tl pre"; cases "tl (tl pre)") auto
      with d lt show ?thesis by (auto simp: example_group_def doc_count_def)
    qed
  qed
  with len d lt le r show ?thesis
    unfolding list_all_iff by blast
qed

text \<open>
  \<^bold>\<open>C9\<close> (as the code has it). \<open>merge_correspondents\<close> never compares its two ids and never
  fails with an error: for every source and target id, equal or not, it lists the
  documents of the source; when there are none it returns \<open>True\<close> and reassigns nothing;
  otherwise it reassigns them to the target in batches of 50, the first request carrying
  the first 50 ids, and returns a boolean.
\<close>

theorem merge_correspondents_never_compares_ids:
  "\<exists>ok new.
     merge_correspondents w h source_id target_id = (Inr ok, h @ ListDocuments source_id # new)
     \<and> (let documents = collect_pages (list_documents w (h @ [ListDocuments source_id]))
        in (documents = [] \<longrightarrow> ok \<and> new = [])
         \<and> (documents \<noteq> [] \<longrightarrow> (\<exists>more. new = BulkEdit (take 50 documents) target_id # more)))"
proof (cases "collect_pages (list_documents w (h @ [ListDocuments source_id])) = []")
  case True
  then show ?thesis
    by (auto simp add: merge_correspondents_def get_correspondent_documents_def Let_def)
next
  case False
  from bulk_first_request[OF _ False, of 50 w "h @ [ListDocuments source_id]" target_id]
  obtain ok more where
    "bulk_reassign_documents w (h @ [ListDocuments source_id])
       (collect_pages (list_documents w (h @ [ListDocuments source_id]))) target_id 50
      = (Inr ok, (h @ [ListDocuments source_id]) @
           BulkEdit (take 50 (collect_pages (list_documents w (h @ [ListDocuments source_id])))) target_id # more)"
    by auto
  with False show ?thesis
    by (simp add: merge_correspondents_def get_correspondent_documents_def Let_def)
qed

theorem merge_correspondents_never_compares_ids_witness:
  "\<exists>ok new.
     merge_correspondents (mock_world [] [(5, [1, 2])] ''n'') [] 5 5 = (Inr ok, [] @ ListDocuments 5 # new)
     \<and> collect_pages (list_documents (mock_world [] [(5, [1, 2])] ''n'') ([] @ [ListDocuments 5])) \<noteq> []
     \<and> (\<exists>more. new = BulkEdit (take 50
           (collect_pages (list_documents (mock_world [] [(5, [1, 2])] ''n'') ([] @ [ListDocuments 5])))) 5 # more)"
  using merge_correspondents_never_compares_ids[of "mock_world [] [(5, [1, 2])] ''n''" "[]" 5 5]
  by (simp add: Let_def mock_world_def)

text \<open>
  With the same id as source and target, and two documents on the service, the merge
  succeeds and the reassignment request is sent.
\<close>

theorem merge_correspondents_same_id_counterexample:
  "merge_correspondents (mock_world [] [(5, [1, 2])] ''n'') [] 5 5
     = (Inr True, [ListDocuments 5, BulkEdit [1, 2] 5])"
  by (simp add: merge_correspondents_def get_correspondent_documents_def Let_def mock_world_def
        bulk_reassign_documents.simps reassign_batches.simps)

section \<open>Properties of the exact-duplicate finder\<close>

lemma first_seen_snoc:
  "first_seen (xs @ [x]) = (if x \<in> set xs then first_seen xs else first_seen xs @ [x])"
  by (simp add: first_seen_def)

lemma distinct_first_seen: "distinct (first_seen xs)"
  by (simp add: first_seen_def)

lemma set_first_seen: "set (first_seen xs) = set xs"
  by (simp add: first_seen_def)

lemma update_absent_key:
  "k \<notin> fst ` set al \<Longrightarrow> AList.update k v al = al @ [(k, v)]"
  by (induction al) auto

lemma map_entry_tabulated:
  "distinct ks \<Longrightarrow>
     AList.map_entry k f (map (\<lambda>k'. (k', G k')) ks)
       = map (\<lambda>k'. (k', if k' = k then f (G k') else G k')) ks"
  by (induction ks) auto

lemma map_of_tabulated:
  "map_of (map (\<lambda>k'. (k', G k')) ks) k = (if k \<in> set ks then Some (G k) else None)"
  by (induction ks) auto

lemma name_groups_invariant:
  "foldl add_to_name_groups [] cs =
     map (\<lambda>k. (k, [c \<leftarrow> cs. normalized (name c) = k])) (first_seen (map (\<lambda>c. normalized (name c)) cs))"
proof (induction cs rule: rev_induct)
  case Nil
  then show ?case by (simp add: first_seen_def)
next
  case (snoc c cs)
  define k where "k = normalized (name c)"
  define ks where "ks = first_seen (map (\<lambda>c. normalized (name c)) cs)"
  define G where "G = (\<lambda>k. [c \<leftarrow> cs. normalized (name c) = k])"
  have d: "distinct ks" by (simp add: ks_def distinct_first_seen)
  have IH: "foldl add_to_name_groups [] cs = map (\<lambda>k. (k, G k)) ks"
    using snoc.IH by (simp add: ks_def G_def)
  have G': "[c' \<leftarrow> cs @ [c]. normalized (name c') = k'] = (if k' = k then G k' @ [c] else G k')" for k'
    by (auto simp: G_def k_def)
  have lhs: "foldl add_to_name_groups [] (cs @ [c]) = add_to_name_groups (map (\<lambda>k. (k, G k)) ks) c"
    by (simp add: IH)
  have rhs: "map (\<lambda>k'. (k', [c' \<leftarrow> cs @ [c]. normalized (name c') = k'])) X
      = map (\<lambda>k'. (k', if k' = k then G k' @ [c] else G k')) X" for X
    by (simp only: G')
  show ?case
  proof (cases "k \<in> set ks")
    case True
    then have "k \<in> set (map (\<lambda>c. normalized (name c)) cs)" by (simp add: ks_def set_first_seen)
    then have "first_seen (map (\<lambda>c. normalized (name c)) (cs @ [c])) = ks"
      by (simp add: first_seen_snoc ks_def k_def)
    moreover have "add_to_name_groups (map (\<lambda>k. (k, G k)) ks) c
        = map (\<lambda>k'. (k', if k' = k then G k' @ [c] else G k')) ks"
      using True d
      by (simp add: add_to_name_groups_def Let_def normalized_def[symmetric] k_def[symmetric]
            map_of_tabulated map_entry_tabulated)
    ultimately show ?thesis unfolding lhs rhs by simp
  next
    case False
    then have "k \<notin> set (map (\<lambda>c. normalized (name c)) cs)" by (simp add: ks_def set_first_seen)
    then have fs: "first_seen (map (\<lambda>c. normalized (name c)) (cs @ [c])) = ks @ [k]"
      by (simp add: first_seen_snoc ks_def k_def)
    have "AList.update k [] (map (\<lambda>k. (k, G k)) ks) = map (\<lambda>k'. (k', G k')) ks @ [(k, [])]"
      using False by (intro update_absent_key) (auto simp: image_iff)
    moreover have "G k = []" using \<open>k \<notin> set (map (\<lambda>c. normalized (name c)) cs)\<close>
      by (auto simp: G_def filter_empty_conv)
    ultimately have "AList.update k [] (map (\<lambda>k. (k, G k)) ks) = map (\<lambda>k'. (k', G k')) (ks @ [k])"
      by simp
    moreover have "distinct (ks @ [k])" using d False by simp
    ultimately have "add_to_name_groups (map (\<lambda>k. (k, G k)) ks) c
        = map (\<lambda>k'. (k', if k' = k then G k' @ [c] else G k')) (ks @ [k])"
      using False
      by (simp only: add_to_name_groups_def Let_def normalized_def[symmetric] k_def[symmetric]
            map_of_tabulated map_entry_tabulated if_True if_False refl)
    then show ?thesis unfolding lhs rhs fs by simp
  qed
qed

text \<open>
  \<^bold>\<open>C6\<close>. The key of a correspondent is its lower-cased, then stripped name. The result of
  \<open>find_exact_duplicates\<close> is obtained from the distinct keys in the order of their first
  occurrence in the input, by taking for each key the correspondents with that key in
  input order, and keeping the groups of at least two members. Being a function of the
  input list, the result is determined by it.
\<close>

theorem find_exact_duplicates_groups_by_normalized_name:
  "find_exact_duplicates cs =
     [g \<leftarrow> map (\<lambda>k. [c \<leftarrow> cs. strip (lower (name c)) = k])
                (first_seen (map (\<lambda>c. strip (lower (name c))) cs)).
        2 \<le> length g]"
proof -
  have "(\<lambda>g. length g > 1) = (\<lambda>g :: correspondent list. 2 \<le> length g)" by auto
  then show ?thesis
    by (simp add: find_exact_duplicates_def name_groups_invariant Let_def normalized_def comp_def)
qed

text \<open>On the example: one group, the three spellings of one name, in input order.\<close>

theorem find_exact_duplicates_example:
  "find_exact_duplicates example_correspondents =
     [[\<lparr>cid = 1, name = ''John Doe'', document_count = None\<rparr>,
       \<lparr>cid = 2, name = ''JOHN DOE'', document_count = None\<rparr>,
       \<lparr>cid = 3, name = ''  john doe  '', document_count = None\<rparr>]]"
  unfolding find_exact_duplicates_groups_by_normalized_name by code_simp

section \<open>Properties of the finders of similar correspondents\<close>

lemma length_find_similar_correspondents_pairs:
  "length (find_similar_correspondents_pairs cs t) =
     length [p \<leftarrow> candidate_pairs cs. calculate_similarity (name (fst p)) (name (snd p)) \<ge> t]"
proof -
  have "length (concat (map (\<lambda>p. if P p then [f p] else []) ps)) = length (filter P ps)"
    for P :: "'x \<Rightarrow> bool" and f :: "'x \<Rightarrow> 'y" and ps
    by (induction ps) auto
  from this[of "\<lambda>p. calculate_similarity (name (fst p)) (name (snd p)) \<ge> t"
              "\<lambda>p. (fst p, snd p, calculate_similarity (name (fst p)) (name (snd p)))"
              "candidate_pairs cs"]
  show ?thesis
    by (simp add: find_similar_correspondents_pairs_def split_def)
qed

definition graph_upto :: "correspondent list \<Rightarrow> rat \<Rightarrow> nat \<Rightarrow> (int \<rightharpoonup> int list)" where
  "graph_upto cs t m =
     foldl (\<lambda>graph i. graph(cid (cs ! i) \<mapsto> similar_ids cs t i)) Map.empty [0..<m]"

lemma graph_upto_Suc:
  "graph_upto cs t (Suc m) = (graph_upto cs t m)(cid (cs ! m) \<mapsto> similar_ids cs t m)"
  by (simp add: graph_upto_def)

lemma graph_upto_0: "graph_upto cs t 0 = Map.empty"
  by (simp add: graph_upto_def)

lemma graph_upto_defined: "i < m \<Longrightarrow> graph_upto cs t m (cid (cs ! i)) \<noteq> None"
  by (induction m) (auto simp: graph_upto_Suc less_Suc_eq)

lemma graph_upto_entry:
  "graph_upto cs t m u = Some l \<Longrightarrow> \<exists>i<m. cid (cs ! i) = u \<and> l = similar_ids cs t i"
proof (induction m)
  case 0
  then show ?case by (simp add: graph_upto_0)
next
  case (Suc m)
  show ?case
  proof (cases "u = cid (cs ! m)")
    case True
    with Suc.prems show ?thesis by (auto simp: graph_upto_Suc)
  next
    case False
    with Suc.prems have "graph_upto cs t m u = Some l" by (simp add: graph_upto_Suc)
    from Suc.IH[OF this] show ?thesis by (auto simp: less_Suc_eq)
  qed
qed

lemma similar_graph_defined:
  "c \<in> set cs \<Longrightarrow> similar_graph cs t (cid c) \<noteq> None"
  using graph_upto_defined[of _ "length cs" cs t]
  by (auto simp: similar_graph_def graph_upto_def[symmetric] in_set_conv_nth)

lemma similar_graph_entry:
  "similar_graph cs t u = Some l \<Longrightarrow> \<exists>i<length cs. cid (cs ! i) = u \<and> l = similar_ids cs t i"
  using graph_upto_entry[of cs t "length cs" u l]
  by (simp add: similar_graph_def graph_upto_def[symmetric])

lemma similar_ids_subset: "set (similar_ids cs t i) \<subseteq> cid ` set cs"
  by (auto simp: similar_ids_def)

lemma similar_ids_member:
  "x \<in> set (similar_ids cs t i) \<Longrightarrow>
     \<exists>j<length cs. j \<noteq> i \<and> cid (cs ! j) = x
        \<and> calculate_similarity (name (cs ! i)) (name (cs ! j)) \<ge> t"
  by (auto simp: similar_ids_def)

definition touched :: "(int \<rightharpoonup> int list) \<Rightarrow> int \<Rightarrow> bool" where
  "touched graph v \<longleftrightarrow>
     (\<exists>l. graph v = Some l \<and> l \<noteq> []) \<or> (\<exists>u l. graph u = Some l \<and> v \<in> set l)"

lemma traverse_result:
  assumes graph_defined: "\<forall>c\<in>set cs. graph (cid c) \<noteq> None"
    and graph_range: "\<forall>u l. graph u = Some l \<longrightarrow> set l \<subseteq> cid ` set cs"
  shows "set stack \<subseteq> cid ` set cs \<Longrightarrow>
     \<exists>visited' new. traverse cs graph stack visited grp = Inr (visited', grp @ new)
        \<and> (\<forall>c\<in>set new. c \<in> set cs \<and> (cid c \<in> set stack \<or> (\<exists>u l. graph u = Some l \<and> cid c \<in> set l)))"
  using assms
proof (induction cs graph stack visited grp rule: traverse.induct)
  case (1 correspondents graph visited grp)
  show ?case by (simp add: traverse.simps)
next
  case (2 cs graph current_id stack visited grp)
  show ?case
  proof (cases "current_id \<in> visited")
    case True
    from "2.IH"(2)[OF _ _ "2.prems"(2,3)] True "2.prems"(1)
    obtain visited' new where
      r: "traverse cs graph stack visited grp = Inr (visited', grp @ new)"
      and m: "\<forall>c\<in>set new. c \<in> set cs \<and> (cid c \<in> set stack \<or> (\<exists>u l. graph u = Some l \<and> cid c \<in> set l))"
      by auto
    have "traverse cs graph (current_id # stack) visited grp = Inr (visited', grp @ new)"
      using True r by (subst traverse.simps) simp
    with m show ?thesis by auto
  next
    case False
    from "2.prems"(1) obtain c0 where c0: "c0 \<in> set cs" "cid c0 = current_id" by auto
    then obtain current_corr where
      f: "find (\<lambda>c. cid c = current_id) cs = Some current_corr"
      by (cases "find (\<lambda>c. cid c = current_id) cs") (auto simp: find_None_iff)
    then have cc: "current_corr \<in> set cs" "cid current_corr = current_id"
      by (auto simp: find_Some_iff)
    from "2.prems"(2) c0 obtain similar where g: "graph current_id = Some similar" by auto
    with "2.prems"(3) have sub: "set similar \<subseteq> cid ` set cs" by blast
    define stack' where
      "stack' = rev [similar_id \<leftarrow> similar. similar_id \<notin> insert current_id visited] @ stack"
    have "set stack' \<subseteq> cid ` set cs" using sub "2.prems"(1) by (auto simp: stack'_def)
    from "2.IH"(1)[OF False f g this[unfolded stack'_def] "2.prems"(2,3), folded stack'_def]
    obtain visited' new where
      r: "traverse cs graph stack' (insert current_id visited) (grp @ [current_corr])
            = Inr (visited', (grp @ [current_corr]) @ new)"
      and m: "\<forall>c\<in>set new. c \<in> set cs \<and> (cid c \<in> set stack' \<or> (\<exists>u l. graph u = Some l \<and> cid c \<in> set l))"
      by auto
    have "traverse cs graph (current_id # stack) visited grp = Inr (visited', grp @ (current_corr # new))"
      using False f g r by (subst traverse.simps) (simp add: stack'_def)
    moreover have "\<forall>c\<in>set (current_corr # new). c \<in> set cs \<and>
        (cid c \<in> set (current_id # stack) \<or> (\<exists>u l. graph u = Some l \<and> cid c \<in> set l))"
      using m cc g by (auto simp: stack'_def)
    ultimately show ?thesis by blast
  qed
qed

lemma traverse_isolated_start:
  assumes "find (\<lambda>c. cid c = start) cs = Some c" "graph start = Some []" "start \<notin> visited"
  shows "traverse cs graph [start] visited [] = Inr (insert start visited, [c])"
  using assms by (subst traverse.simps) (simp add: traverse.simps)

definition reported :: "correspondent list \<Rightarrow> (int \<rightharpoonup> int list) \<Rightarrow> correspondent list \<Rightarrow> bool" where
  "reported cs graph g \<longleftrightarrow>
     2 \<le> length g \<and> sorted (map (\<lambda>c. lower (name c)) g) \<and>
     (\<forall>c\<in>set g. c \<in> set cs \<and> touched graph (cid c))"

lemma collect_groups_result:
  assumes graph_defined: "\<forall>c\<in>set cs. graph (cid c) \<noteq> None"
    and graph_range: "\<forall>u l. graph u = Some l \<longrightarrow> set l \<subseteq> cid ` set cs"
  shows "set rest \<subseteq> set cs \<Longrightarrow>
     \<exists>new. collect_groups cs graph rest visited groups = Inr (groups @ new)
        \<and> (\<forall>g\<in>set new. reported cs graph g)"
proof (induction rest arbitrary: visited groups)
  case Nil
  then show ?case by simp
next
  case (Cons c rest)
  then have rest: "set rest \<subseteq> set cs" and c: "c \<in> set cs" by auto
  show ?case
  proof (cases "cid c \<in> visited")
    case True
    with Cons.IH[OF rest, of visited groups] show ?thesis by simp
  next
    case False
    from c have "set [cid c] \<subseteq> cid ` set cs" by simp
    from traverse_result[OF graph_defined graph_range this, of visited "[]"]
    obtain visited1 grp where
      t: "traverse cs graph [cid c] visited [] = Inr (visited1, grp)"
      and m: "\<forall>c'\<in>set grp. c' \<in> set cs \<and> (cid c' = cid c \<or> (\<exists>u l. graph u = Some l \<and> cid c' \<in> set l))"
      by auto
    define groups1 where
      "groups1 = (if length grp > 1 then groups @ [sort_key (\<lambda>x. lower (name x)) grp] else groups)"
    from Cons.IH[OF rest, of visited1 groups1] obtain new where
      r: "collect_groups cs graph rest visited1 groups1 = Inr (groups1 @ new)"
      and q: "\<forall>g\<in>set new. reported cs graph g" by blast
    have step: "collect_groups cs graph (c # rest) visited groups = Inr (groups1 @ new)"
      using False t r by (simp add: groups1_def)
    show ?thesis
    proof (cases "length grp > 1")
      case False
      with step q show ?thesis by (auto simp: groups1_def)
    next
      case True
      have start_has_edge: "\<exists>l. graph (cid c) = Some l \<and> l \<noteq> []"
      proof (rule ccontr)
        assume no: "\<not> (\<exists>l. graph (cid c) = Some l \<and> l \<noteq> [])"
        from graph_defined c obtain l where "graph (cid c) = Some l" by auto
        with no have e: "graph (cid c) = Some []" by auto
        from c obtain c0 where "find (\<lambda>x. cid x = cid c) cs = Some c0"
          by (cases "find (\<lambda>x. cid x = cid c) cs") (auto simp: find_None_iff)
        from traverse_isolated_start[of "cid c" cs c0 graph visited, OF this e \<open>cid c \<notin> visited\<close>] t True
        show False by simp
      qed
      have "reported cs graph (sort_key (\<lambda>x. lower (name x)) grp)"
        unfolding reported_def touched_def
        using True m start_has_edge
        by (auto simp: sorted_sort_key)
      with step q True have "collect_groups cs graph (c # rest) visited groups
          = Inr (groups @ (sort_key (\<lambda>x. lower (name x)) grp # new))
        \<and> (\<forall>g\<in>set (sort_key (\<lambda>x. lower (name x)) grp # new). reported cs graph g)"
        by (simp add: groups1_def)
      then show ?thesis by blast
    qed
  qed
qed

lemma isolated_not_touched:
  assumes d: "distinct (map cid cs)" and i: "i < length cs"
    and iso: "\<forall>j<length cs. j \<noteq> i \<longrightarrow>
                calculate_similarity (name (cs ! i)) (name (cs ! j)) < t
              \<and> calculate_similarity (name (cs ! j)) (name (cs ! i)) < t"
  shows "\<not> touched (similar_graph cs t) (cid (cs ! i))"
proof
  assume "touched (similar_graph cs t) (cid (cs ! i))"
  then consider
      l where "similar_graph cs t (cid (cs ! i)) = Some l" "l \<noteq> []"
    | u l where "similar_graph cs t u = Some l" "cid (cs ! i) \<in> set l"
    unfolding touched_def by blast
  then show False
  proof cases
    case 1
    from similar_graph_entry[OF 1(1)] obtain i' where
      i': "i' < length cs" "cid (cs ! i') = cid (cs ! i)" "l = similar_ids cs t i'" by blast
    with d i have "i' = i"
      by (metis distinct_conv_nth length_map nth_map)
    with 1(2) i' have "similar_ids cs t i \<noteq> []" by simp
    then obtain x where "x \<in> set (similar_ids cs t i)"
      by (cases "similar_ids cs t i") auto
    from similar_ids_member[OF this] iso show False by force
  next
    case 2
    from similar_graph_entry[OF 2(1)] obtain i' where
      i': "i' < length cs" "l = similar_ids cs t i'" by blast
    with 2(2) have "cid (cs ! i) \<in> set (similar_ids cs t i')" by simp
    from similar_ids_member[OF this] obtain j where
      j: "j < length cs" "j \<noteq> i'" "cid (cs ! j) = cid (cs ! i)"
         "calculate_similarity (name (cs ! i')) (name (cs ! j)) \<ge> t" by blast
    with d i have "j = i"
      by (metis distinct_conv_nth length_map nth_map)
    with j i' iso show False by force
  qed
qed

text \<open>
  \<^bold>\<open>C5\<close>, the pairs: for a fixed list of correspondents and thresholds \<open>t1 \<le> t2\<close>, the
  number of similar pairs at \<open>t2\<close> is at most the number at \<open>t1\<close>.
\<close>

theorem similar_pairs_antitone_in_threshold:
  assumes "t1 \<le> t2"
  shows "length (find_similar_correspondents_pairs cs t2)
           \<le> length (find_similar_correspondents_pairs cs t1)"
proof -
  have "length (filter P xs) \<le> length (filter Q xs)" if "\<And>x. P x \<Longrightarrow> Q x"
    for P Q :: "'x \<Rightarrow> bool" and xs
    using that by (induction xs) auto
  from this[of "\<lambda>p. calculate_similarity (name (fst p)) (name (snd p)) \<ge> t2"
               "\<lambda>p. calculate_similarity (name (fst p)) (name (snd p)) \<ge> t1"] assms
  show ?thesis
    unfolding length_find_similar_correspondents_pairs by force
qed

theorem similar_pairs_antitone_in_threshold_witness:
  "(1 / 2 :: rat) \<le> 1
   \<and> length (find_similar_correspondents_pairs example_names 1)
       \<le> length (find_similar_correspondents_pairs example_names (1 / 2))"
  using similar_pairs_antitone_in_threshold[of "1 / 2" 1 example_names] by simp

text \<open>
  \<^bold>\<open>C5\<close>, the groups. The code does not keep the number of groups from growing with the
  threshold, as the claim and the integration test of the repository expect. Four
  correspondents named ab, ab, ac, ac (and a fifth, unrelated one): at threshold \<open>1/2\<close>
  all four are connected and form one group; at threshold \<open>1\<close> only the equal names
  are, and there are two groups.
\<close>

theorem similar_groups_count_counterexample:
  "(1 / 2 :: rat) \<le> 1
   \<and> map length (projr (find_similar_correspondents example_names (1 / 2))) = [4]
   \<and> map length (projr (find_similar_correspondents example_names 1)) = [2, 2]"
  by code_simp

text \<open>
  \<^bold>\<open>C7\<close> (as the code has it). \<open>find_similar_correspondents\<close> raises no error, and every
  group it returns has at least two members, all from the input, sorted in ascending
  order of the lower-cased name (the sort key is \<^verbatim>\<open>x["name"].lower()\<close>, not stripped).
  When the ids are distinct, a correspondent with no neighbour at or above the threshold,
  in either direction of the score, appears in no returned group.
\<close>

theorem find_similar_correspondents_groups:
  "\<exists>groups. find_similar_correspondents cs t = Inr groups
     \<and> (\<forall>g\<in>set groups. 2 \<le> length g \<and> sorted (map (\<lambda>c. lower (name c)) g) \<and> set g \<subseteq> set cs)
     \<and> (distinct (map cid cs) \<longrightarrow>
          (\<forall>i<length cs.
             (\<forall>j<length cs. j \<noteq> i \<longrightarrow>
                  calculate_similarity (name (cs ! i)) (name (cs ! j)) < t
                \<and> calculate_similarity (name (cs ! j)) (name (cs ! i)) < t)
             \<longrightarrow> (\<forall>g\<in>set groups. cs ! i \<notin> set g)))"
proof -
  have graph_defined: "\<forall>c\<in>set cs. similar_graph cs t (cid c) \<noteq> None"
    using similar_graph_defined by blast
  have graph_range: "\<forall>u l. similar_graph cs t u = Some l \<longrightarrow> set l \<subseteq> cid ` set cs"
    using similar_graph_entry similar_ids_subset by blast
  from collect_groups_result[OF graph_defined graph_range, of cs "{}" "[]"]
  obtain groups where
    r: "find_similar_correspondents cs t = Inr groups"
    and q: "\<forall>g\<in>set groups. reported cs (similar_graph cs t) g"
    by (auto simp: find_similar_correspondents_def)
  have "\<forall>g\<in>set groups. 2 \<le> length g \<and> sorted (map (\<lambda>c. lower (name c)) g) \<and> set g \<subseteq> set cs"
    using q by (auto simp: reported_def)
  moreover have "\<forall>g\<in>set groups. cs ! i \<notin> set g"
    if "distinct (map cid cs)" "i < length cs"
       "\<forall>j<length cs. j \<noteq> i \<longrightarrow>
                  calculate_similarity (name (cs ! i)) (name (cs ! j)) < t
                \<and> calculate_similarity (name (cs ! j)) (name (cs ! i)) < t" for i
    using isolated_not_touched[OF that] q by (auto simp: reported_def)
  ultimately show ?thesis using r by blast
qed

theorem find_similar_correspondents_groups_witness:
  "distinct (map cid example_names)
   \<and> (\<exists>groups. find_similar_correspondents example_names 1 = Inr groups
        \<and> list_all (\<lambda>g. 2 \<le> length g \<and> sorted (map (\<lambda>c. lower (name c)) g)
                        \<and> example_names ! 4 \<notin> set g) groups)"
proof -
  have d: "distinct (map cid example_names)" by code_simp
  have len: "4 < length example_names" by code_simp
  have iso: "\<forall>j<length example_names. j \<noteq> 4 \<longrightarrow>
                  calculate_similarity (name (example_names ! 4)) (name (example_names ! j)) < 1
                \<and> calculate_similarity (name (example_names ! j)) (name (example_names ! 4)) < 1"
    by code_simp
  from find_similar_correspondents_groups[of example_names 1] obtain groups where
    r: "find_similar_correspondents example_names 1 = Inr groups"
    and q: "\<forall>g\<in>set groups. 2 \<le> length g \<and> sorted (map (\<lambda>c. lower (name c)) g)
              \<and> set g \<subseteq> set example_names"
    and p: "distinct (map cid example_names) \<longrightarrow>
          (\<forall>i<length example_names.
             (\<forall>j<length example_names. j \<noteq> i \<longrightarrow>
                  calculate_similarity (name (example_names ! i)) (name (example_names ! j)) < 1
                \<and> calculate_similarity (name (example_names ! j)) (name (example_names ! i)) < 1)
             \<longrightarrow> (\<forall>g\<in>set groups. example_names ! i \<notin> set g))"
    by blast
  from p d len iso have "\<forall>g\<in>set groups. example_names ! 4 \<notin> set g" by blast
  with q have "list_all (\<lambda>g. 2 \<le> length g \<and> sorted (map (\<lambda>c. lower (name c)) g)
                        \<and> example_names ! 4 \<notin> set g) groups"
    unfolding list_all_iff by blast
  with d r show ?thesis by blast
qed

text \<open>
  Two names whose order by lower-cased name (a leading space sorts first) is not their
  order by lower-cased, stripped name.
\<close>

theorem groups_sorted_by_normalized_name_counterexample:
  "find_similar_correspondents example_padded (1 / 2) = Inr [example_padded]
   \<and> \<not> sorted (map (\<lambda>c. strip (lower (name c))) example_padded)"
  by code_simp

section \<open>Properties of the similarity score\<close>

text \<open>Empty strings: nothing matches, and the ratio of two empty strings is 1 by definition.\<close>

lemma extend_left_junk [simp]:
  "extend_left a b alo blo True best = best"
proof -
  obtain i j k where "best = (i, j, k)" by (cases best) auto
  then show ?thesis by (simp add: extend_left.simps isbjunk_def)
qed

lemma extend_right_junk [simp]:
  "extend_right a b ahi bhi True best = best"
proof -
  obtain i j k where "best = (i, j, k)" by (cases best) auto
  then show ?thesis by (simp add: extend_right.simps isbjunk_def)
qed

lemma find_longest_match_empty_a:
  "find_longest_match [] b 0 0 0 bhi = (0, 0, 0)"
  by (simp add: find_longest_match_def extend_left.simps extend_right.simps)

lemma chain_b_empty: "chain_b [] elt = []"
  by (simp add: chain_b_def)

lemma scan_rows_empty_b:
  "foldl (scan_row a [] blo bhi) (Map.empty, best) rows = (Map.empty, best)"
  by (induction rows) (simp_all add: scan_row_def chain_b_empty)

lemma find_longest_match_empty_b:
  "find_longest_match a [] 0 ahi 0 0 = (0, 0, 0)"
  by (simp add: find_longest_match_def scan_rows_empty_b extend_left.simps extend_right.simps)

lemma ratio_empty_left: "b \<noteq> [] \<Longrightarrow> ratio [] b = 0"
  by (simp add: ratio_def get_matching_blocks_def matching_blocks_loop.simps
        find_longest_match_empty_a calculate_ratio_def)

lemma ratio_empty_right: "a \<noteq> [] \<Longrightarrow> ratio a [] = 0"
  by (simp add: ratio_def get_matching_blocks_def matching_blocks_loop.simps
        find_longest_match_empty_b calculate_ratio_def)

lemma ratio_empty_both: "ratio [] [] = 1"
  by (simp add: ratio_def calculate_ratio_def)

text \<open>
  \<^bold>\<open>C4\<close> (as the code has it). The score of two names equals the score of the same names
  in the other order when their normalized forms are equal, or when at least one
  normalized form is empty.
\<close>

theorem calculate_similarity_symmetric_when_equal_or_empty:
  assumes "strip (lower name1) = strip (lower name2)
           \<or> strip (lower name1) = [] \<or> strip (lower name2) = []"
  shows "calculate_similarity name1 name2 = calculate_similarity name2 name1"
proof -
  have "ratio a b = ratio b a" if "a = b \<or> a = [] \<or> b = []" for a b
    using that ratio_empty_left ratio_empty_right by (cases "a = []"; cases "b = []") auto
  with assms show ?thesis by (simp add: calculate_similarity_def)
qed

theorem calculate_similarity_symmetric_when_equal_or_empty_witness:
  "(strip (lower ''John Doe'') = strip (lower ''  JOHN DOE  '')
    \<and> calculate_similarity ''John Doe'' ''  JOHN DOE  '' = calculate_similarity ''  JOHN DOE  '' ''John Doe'')
   \<and> (strip (lower ''   '') = []
    \<and> calculate_similarity ''Acme'' ''   '' = calculate_similarity ''   '' ''Acme'')"
proof -
  have 1: "strip (lower ''John Doe'') = strip (lower ''  JOHN DOE  '')" by code_simp
  have 2: "strip (lower ''   '') = []" by code_simp
  from calculate_similarity_symmetric_when_equal_or_empty[of "''John Doe''" "''  JOHN DOE  ''"]
       calculate_similarity_symmetric_when_equal_or_empty[of "''Acme''" "''   ''"] 1 2
  show ?thesis by simp
qed

text \<open>
  The score depends on the order of its arguments: between \<open>tide\<close> and \<open>diet\<close> the first
  longest match is the single letter that comes first in the first string, and the
  remainders left and right of it differ.
\<close>

theorem calculate_similarity_symmetric_counterexample:
  "calculate_similarity ''tide'' ''diet'' = 1 / 4
   \<and> calculate_similarity ''diet'' ''tide'' = 1 / 2"
  by code_simp


subsection \<open>The matcher and the longest common substring\<close>

text \<open>
  An element of \<open>b\<close> is popular when \<open>b\<close> has at least 200 elements and the element
  occurs more than \<open>len(b) div 100 + 1\<close> times; the matcher keeps no position for it.
\<close>

definition popular :: "string \<Rightarrow> char \<Rightarrow> bool" where
  "popular b elt \<longleftrightarrow>
     length b \<ge> 200 \<and> length [i \<leftarrow> [0..<length b]. b ! i = elt] > length b div 100 + 1"

lemma chain_b_filter:
  "chain_b b elt = [j \<leftarrow> [0..<length b]. b ! j = elt \<and> \<not> popular b elt]"
  by (simp add: chain_b_def popular_def Let_def)

text \<open>
  The positions of an element are increasing, so the inner loop, with its \<^verbatim>\<open>continue\<close>
  and \<^verbatim>\<open>break\<close>, is a fold over the positions within \<open>[blo, bhi)\<close>.
\<close>

definition step :: "(nat \<rightharpoonup> nat) \<Rightarrow> nat \<Rightarrow> (nat \<rightharpoonup> nat) \<times> match \<Rightarrow> nat \<Rightarrow> (nat \<rightharpoonup> nat) \<times> match" where
  "step j2len i st j =
     (case st of (newj2len, besti, bestj, bestsize) \<Rightarrow>
        let k = j2lenget j2len j + 1
        in (newj2len(j \<mapsto> k),
            if k > bestsize then (i + 1 - k, j + 1 - k, k) else (besti, bestj, bestsize)))"

lemma scan_indices_sorted:
  "sorted js \<Longrightarrow>
     scan_indices j2len i blo bhi js st = foldl (step j2len i) st [j \<leftarrow> js. blo \<le> j \<and> j < bhi]"
proof (induction js arbitrary: st)
  case Nil
  then show ?case by (cases st) simp
next
  case (Cons j js)
  obtain new bi bj bk where st: "st = (new, bi, bj, bk)" by (cases st) auto
  from Cons.prems have sorted: "sorted js" and ge: "\<forall>x\<in>set js. j \<le> x" by auto
  show ?case
  proof (cases "j < blo")
    case True
    with Cons.IH[OF sorted] show ?thesis by (simp add: st)
  next
    case False
    note lo = this
    show ?thesis
    proof (cases "j \<ge> bhi")
      case True
      with ge have "[x \<leftarrow> js. blo \<le> x \<and> x < bhi] = []" by (auto simp: filter_empty_conv)
      with True lo show ?thesis by (simp add: st)
    next
      case False
      with lo Cons.IH[OF sorted] show ?thesis
        by (simp add: st step_def Let_def)
    qed
  qed
qed


lemma filter_range:
  assumes "bhi \<le> n"
  shows "[j \<leftarrow> [0..<n]. P j \<and> blo \<le> j \<and> j < bhi] = [j \<leftarrow> [blo..<bhi]. P j]"
proof (cases "blo \<le> bhi")
  case False
  then show ?thesis by (auto simp: filter_empty_conv)
next
  case True
  have 1: "[0..<n] = [0..<bhi] @ [bhi..<n]"
    using assms by (metis le_add_diff_inverse upt_add_eq_append zero_le)
  have 2: "[0..<bhi] = [0..<blo] @ [blo..<bhi]"
    using True by (metis le_add_diff_inverse upt_add_eq_append zero_le)
  have a: "[j \<leftarrow> [0..<blo]. P j \<and> blo \<le> j \<and> j < bhi] = []"
    by (auto simp: filter_empty_conv)
  have b: "[j \<leftarrow> [bhi..<n]. P j \<and> blo \<le> j \<and> j < bhi] = []"
    by (auto simp: filter_empty_conv)
  have c: "[j \<leftarrow> [blo..<bhi]. P j \<and> blo \<le> j \<and> j < bhi] = [j \<leftarrow> [blo..<bhi]. P j]"
    by (rule filter_cong) auto
  show ?thesis
    by (simp only: 1 2 filter_append a b c append_Nil append_Nil2)
qed


lemma scan_row_fold:
  assumes "bhi \<le> length b"
  shows "scan_row a b blo bhi (j2len, best) i =
     foldl (step j2len i) (Map.empty, best) [j \<leftarrow> [blo..<bhi]. b ! j = a ! i \<and> \<not> popular b (b ! j)]"
proof -
  define P where "P = (\<lambda>j. b ! j = a ! i \<and> \<not> popular b (a ! i))"
  have chain: "chain_b b (a ! i) = filter P [0..<length b]"
    by (simp add: chain_b_filter P_def)
  have "sorted (chain_b b (a ! i))"
    unfolding chain by (rule sorted_wrt_filter) simp
  then have "scan_row a b blo bhi (j2len, best) i =
      foldl (step j2len i) (Map.empty, best) [j \<leftarrow> filter P [0..<length b]. blo \<le> j \<and> j < bhi]"
    by (simp add: scan_row_def scan_indices_sorted chain)
  also have "[j \<leftarrow> filter P [0..<length b]. blo \<le> j \<and> j < bhi]
      = [j \<leftarrow> [0..<length b]. P j \<and> blo \<le> j \<and> j < bhi]"
    unfolding filter_filter by (rule filter_cong) auto
  also have "\<dots> = [j \<leftarrow> [blo..<bhi]. P j]"
    by (rule filter_range[OF assms])
  also have "\<dots> = [j \<leftarrow> [blo..<bhi]. b ! j = a ! i \<and> \<not> popular b (b ! j)]"
    unfolding P_def by (rule filter_cong) auto
  finally show ?thesis .
qed


text \<open>
  \<open>run a b alo blo i j\<close> is the number that \<^verbatim>\<open>j2len\<close> holds for \<open>j\<close> after row \<open>i\<close>: the
  length of the matching run that ends at \<open>(i, j)\<close> within the range searched.
\<close>

fun run :: "string \<Rightarrow> string \<Rightarrow> nat \<Rightarrow> nat \<Rightarrow> nat \<Rightarrow> nat \<Rightarrow> nat" where
  "run a b alo blo 0 j = (if a ! 0 = b ! j \<and> \<not> popular b (b ! j) then 1 else 0)"
| "run a b alo blo (Suc i) j =
     (if a ! Suc i = b ! j \<and> \<not> popular b (b ! j)
      then (if alo < Suc i \<and> blo < j then run a b alo blo i (j - 1) else 0) + 1 else 0)"

lemma run_unfold:
  "run a b alo blo i j =
     (if a ! i = b ! j \<and> \<not> popular b (b ! j)
      then (if alo < i \<and> blo < j then run a b alo blo (i - 1) (j - 1) else 0) + 1 else 0)"
  by (cases i) simp_all

declare run.simps [simp del]

lemma run_pos_iff: "0 < run a b alo blo i j \<longleftrightarrow> a ! i = b ! j \<and> \<not> popular b (b ! j)"
  by (subst run_unfold) simp

text \<open>
  The best match after the rows is the first cell, in the order of the two loops, whose run
  is the longest.
\<close>

definition size3 :: "match \<Rightarrow> nat" where
  "size3 m = snd (snd m)"

lemma size3_simp [simp]: "size3 (i, j, k) = k"
  by (simp add: size3_def)

definition first_max :: "('c \<Rightarrow> match) \<Rightarrow> match \<Rightarrow> 'c list \<Rightarrow> match" where
  "first_max enc init cells =
     foldl (\<lambda>best c. if size3 (enc c) > size3 best then enc c else best) init cells"

lemma first_max_Nil [simp]: "first_max enc init [] = init"
  by (simp add: first_max_def)

lemma first_max_Cons:
  "first_max enc init (c # cells) =
     first_max enc (if size3 (enc c) > size3 init then enc c else init) cells"
  by (simp add: first_max_def)

lemma first_max_append:
  "first_max enc init (xs @ ys) = first_max enc (first_max enc init xs) ys"
  by (simp add: first_max_def)

lemma first_max_map:
  "first_max enc init (map f xs) = first_max (\<lambda>x. enc (f x)) init xs"
  by (simp add: first_max_def foldl_map)

lemma first_max_filter:
  "\<forall>c\<in>set cells. \<not> P c \<longrightarrow> size3 (enc c) = 0 \<Longrightarrow>
     first_max enc init (filter P cells) = first_max enc init cells"
  by (induction cells arbitrary: init) (auto simp: first_max_Cons)

lemma first_max_cases:
  "size3 init \<le> size3 (first_max enc init cells)
   \<and> (\<forall>c\<in>set cells. size3 (enc c) \<le> size3 (first_max enc init cells))
   \<and> (first_max enc init cells = init
      \<or> (\<exists>pre c post. cells = pre @ c # post \<and> first_max enc init cells = enc c
            \<and> size3 init < size3 (enc c) \<and> (\<forall>c'\<in>set pre. size3 (enc c') < size3 (enc c))))"
proof (induction cells arbitrary: init)
  case Nil
  show ?case by simp
next
  case (Cons c0 cells)
  define B1 where "B1 = (if size3 (enc c0) > size3 init then enc c0 else init)"
  define B where "B = first_max enc B1 cells"
  have B: "first_max enc init (c0 # cells) = B" by (simp add: first_max_Cons B_def B1_def)
  from Cons.IH[of B1] have
    1: "size3 B1 \<le> size3 B" and 2: "\<forall>c\<in>set cells. size3 (enc c) \<le> size3 B"
    and 3: "B = B1 \<or> (\<exists>pre c post. cells = pre @ c # post \<and> B = enc c
            \<and> size3 B1 < size3 (enc c) \<and> (\<forall>c'\<in>set pre. size3 (enc c') < size3 (enc c)))"
    unfolding B_def by auto
  have le0: "size3 init \<le> size3 B1" and c0: "size3 (enc c0) \<le> size3 B1"
    by (auto simp: B1_def)
  have "B = init \<or> (\<exists>pre c post. c0 # cells = pre @ c # post \<and> B = enc c
            \<and> size3 init < size3 (enc c) \<and> (\<forall>c'\<in>set pre. size3 (enc c') < size3 (enc c)))"
    using 3
  proof
    assume "B = B1"
    show ?thesis
    proof (cases "size3 (enc c0) > size3 init")
      case True
      with \<open>B = B1\<close> have "c0 # cells = [] @ c0 # cells \<and> B = enc c0
            \<and> size3 init < size3 (enc c0) \<and> (\<forall>c'\<in>set []. size3 (enc c') < size3 (enc c0))"
        by (simp add: B1_def)
      then show ?thesis by blast
    next
      case False
      with \<open>B = B1\<close> show ?thesis by (simp add: B1_def)
    qed
  next
    assume "\<exists>pre c post. cells = pre @ c # post \<and> B = enc c
            \<and> size3 B1 < size3 (enc c) \<and> (\<forall>c'\<in>set pre. size3 (enc c') < size3 (enc c))"
    then obtain pre c post where
      d: "cells = pre @ c # post" "B = enc c" "size3 B1 < size3 (enc c)"
         "\<forall>c'\<in>set pre. size3 (enc c') < size3 (enc c)" by blast
    with le0 c0 have "c0 # cells = (c0 # pre) @ c # post \<and> B = enc c
            \<and> size3 init < size3 (enc c) \<and> (\<forall>c'\<in>set (c0 # pre). size3 (enc c') < size3 (enc c))"
      by auto
    then show ?thesis by blast
  qed
  with 1 2 le0 c0 show ?case unfolding B by auto
qed


definition enc_end :: "string \<Rightarrow> string \<Rightarrow> nat \<Rightarrow> nat \<Rightarrow> nat \<times> nat \<Rightarrow> match" where
  "enc_end a b alo blo c =
     (fst c + 1 - run a b alo blo (fst c) (snd c),
      snd c + 1 - run a b alo blo (fst c) (snd c),
      run a b alo blo (fst c) (snd c))"

lemma size3_enc_end [simp]: "size3 (enc_end a b alo blo c) = run a b alo blo (fst c) (snd c)"
  by (simp add: enc_end_def)

lemma step_fold:
  assumes "\<forall>j\<in>set js. j2lenget j2len j + 1 = run a b alo blo i j"
  shows "foldl (step j2len i) (new, best) js =
     ((\<lambda>j'. if j' \<in> set js then Some (run a b alo blo i j') else new j'),
      first_max (\<lambda>j. enc_end a b alo blo (i, j)) best js)"
  using assms
proof (induction js arbitrary: new best)
  case Nil
  show ?case by simp
next
  case (Cons j js)
  obtain bi bj bk where best: "best = (bi, bj, bk)" by (cases best) auto
  have k: "j2lenget j2len j + 1 = run a b alo blo i j" using Cons.prems by simp
  have st: "step j2len i (new, best) j =
      (new(j \<mapsto> run a b alo blo i j),
       if size3 (enc_end a b alo blo (i, j)) > size3 best then enc_end a b alo blo (i, j) else best)"
    using k by (simp add: step_def best Let_def enc_end_def)
  define best1 where "best1 =
      (if size3 (enc_end a b alo blo (i, j)) > size3 best then enc_end a b alo blo (i, j) else best)"
  define new1 where "new1 = new(j \<mapsto> run a b alo blo i j)"
  have IH: "foldl (step j2len i) (new1, best1) js =
      ((\<lambda>j'. if j' \<in> set js then Some (run a b alo blo i j') else new1 j'),
       first_max (\<lambda>j. enc_end a b alo blo (i, j)) best1 js)"
    by (rule Cons.IH) (use Cons.prems in simp)
  have "foldl (step j2len i) (new, best) (j # js) =
      ((\<lambda>j'. if j' \<in> set js then Some (run a b alo blo i j')
             else (new(j \<mapsto> run a b alo blo i j)) j'),
       first_max (\<lambda>j. enc_end a b alo blo (i, j))
         (if size3 (enc_end a b alo blo (i, j)) > size3 best then enc_end a b alo blo (i, j) else best) js)"
    unfolding foldl_Cons st best1_def[symmetric] new1_def[symmetric] by (rule IH)
  moreover have "(\<lambda>j'. if j' \<in> set js then Some (run a b alo blo i j')
             else (new(j \<mapsto> run a b alo blo i j)) j')
      = (\<lambda>j'. if j' \<in> set (j # js) then Some (run a b alo blo i j') else new j')"
    by (rule ext) auto
  ultimately show ?case by (simp only: first_max_Cons)
qed

definition row_lengths :: "string \<Rightarrow> string \<Rightarrow> nat \<Rightarrow> nat \<Rightarrow> nat \<Rightarrow> nat \<Rightarrow> (nat \<rightharpoonup> nat)" where
  "row_lengths a b alo blo bhi n =
     (if n \<le> alo then Map.empty
      else (\<lambda>j. if blo \<le> j \<and> j < bhi \<and> a ! (n - 1) = b ! j \<and> \<not> popular b (b ! j)
                then Some (run a b alo blo (n - 1) j) else None))"

lemma run_zero: "\<not> (a ! i = b ! j \<and> \<not> popular b (b ! j)) \<Longrightarrow> run a b alo blo i j = 0"
  by (subst run_unfold) simp

lemma j2lenget_row_lengths:
  assumes "alo \<le> n" "blo \<le> j" "j < bhi" "a ! n = b ! j \<and> \<not> popular b (b ! j)"
  shows "j2lenget (row_lengths a b alo blo bhi n) j + 1 = run a b alo blo n j"
proof (cases "alo < n \<and> blo < j")
  case False
  then have "j2lenget (row_lengths a b alo blo bhi n) j = 0"
    using assms(1,2) by (auto simp: j2lenget_def row_lengths_def)
  moreover have "run a b alo blo n j = 1"
    using False assms(4) by (subst run_unfold) auto
  ultimately show ?thesis by simp
next
  case True
  then have j: "j \<noteq> 0" "blo \<le> j - 1" "j - 1 < bhi" using assms(3) by auto
  have "j2lenget (row_lengths a b alo blo bhi n) j = run a b alo blo (n - 1) (j - 1)"
  proof (cases "a ! (n - 1) = b ! (j - 1) \<and> \<not> popular b (b ! (j - 1))")
    case m: True
    with True j show ?thesis by (simp add: j2lenget_def row_lengths_def)
  next
    case m: False
    then have "run a b alo blo (n - 1) (j - 1) = 0" by (rule run_zero)
    moreover from m True j have "row_lengths a b alo blo bhi n (j - 1) = None"
      by (auto simp: row_lengths_def)
    ultimately show ?thesis using j by (simp add: j2lenget_def)
  qed
  moreover have "run a b alo blo n j = run a b alo blo (n - 1) (j - 1) + 1"
    using True assms(4) by (subst run_unfold) auto
  ultimately show ?thesis by simp
qed

lemma scan_row_characterised:
  assumes "bhi \<le> length b" "alo \<le> n"
  shows "scan_row a b blo bhi (row_lengths a b alo blo bhi n, best) n =
     (row_lengths a b alo blo bhi (Suc n),
      first_max (enc_end a b alo blo) best (map (Pair n) [blo..<bhi]))"
proof -
  define js where "js = [j \<leftarrow> [blo..<bhi]. b ! j = a ! n \<and> \<not> popular b (b ! j)]"
  have pre: "\<forall>j\<in>set js. j2lenget (row_lengths a b alo blo bhi n) j + 1 = run a b alo blo n j"
    using j2lenget_row_lengths[OF assms(2), of blo _ bhi a b] by (auto simp: js_def)
  have "scan_row a b blo bhi (row_lengths a b alo blo bhi n, best) n =
      foldl (step (row_lengths a b alo blo bhi n) n) (Map.empty, best) js"
    unfolding js_def by (rule scan_row_fold[OF assms(1)])
  also have "\<dots> = ((\<lambda>j'. if j' \<in> set js then Some (run a b alo blo n j') else None),
      first_max (\<lambda>j. enc_end a b alo blo (n, j)) best js)"
    by (rule step_fold[OF pre])
  finally have 1: "scan_row a b blo bhi (row_lengths a b alo blo bhi n, best) n =
      ((\<lambda>j'. if j' \<in> set js then Some (run a b alo blo n j') else None),
      first_max (\<lambda>j. enc_end a b alo blo (n, j)) best js)" .
  have 2: "(\<lambda>j'. if j' \<in> set js then Some (run a b alo blo n j') else None)
      = row_lengths a b alo blo bhi (Suc n)"
    using assms(2) by (auto simp: row_lengths_def js_def fun_eq_iff)
  have "first_max (\<lambda>j. enc_end a b alo blo (n, j)) best js
      = first_max (\<lambda>j. enc_end a b alo blo (n, j)) best [blo..<bhi]"
    unfolding js_def
  proof (rule first_max_filter, intro ballI impI)
    fix c assume "\<not> (b ! c = a ! n \<and> \<not> popular b (b ! c))"
    then have "\<not> (a ! n = b ! c \<and> \<not> popular b (b ! c))" by auto
    then show "size3 (enc_end a b alo blo (n, c)) = 0" by (simp add: run_zero)
  qed
  also have "\<dots> = first_max (enc_end a b alo blo) best (map (Pair n) [blo..<bhi])"
    by (simp add: first_max_map)
  finally show ?thesis using 1 2 by simp
qed

lemma scan_rows_characterised:
  assumes "bhi \<le> length b" "alo \<le> n"
  shows "foldl (scan_row a b blo bhi) (Map.empty, (alo, blo, 0)) [alo..<n] =
     (row_lengths a b alo blo bhi n,
      first_max (enc_end a b alo blo) (alo, blo, 0) (List.product [alo..<n] [blo..<bhi]))"
  using assms(2)
proof (induction n)
  case 0
  then show ?case by (simp add: row_lengths_def)
next
  case (Suc n)
  show ?case
  proof (cases "alo = Suc n")
    case True
    then show ?thesis by (simp add: row_lengths_def)
  next
    case False
    with Suc.prems have le: "alo \<le> n" by simp
    have prod: "List.product ([alo..<n] @ [n]) [blo..<bhi]
        = List.product [alo..<n] [blo..<bhi] @ map (Pair n) [blo..<bhi]"
      by (simp add: product_concat_map)
    show ?thesis
      using le Suc.IH[OF le]
      by (simp add: scan_row_characterised[OF assms(1) le] prod first_max_append)
  qed
qed


lemma sorted_product:
  "sorted xs \<Longrightarrow> distinct xs \<Longrightarrow> sorted ys \<Longrightarrow> sorted (List.product xs (ys :: nat list))"
  for xs :: "nat list"
proof (induction xs)
  case Nil
  then show ?case by simp
next
  case (Cons x xs)
  have "sorted (map (Pair x) ys)"
    using Cons.prems(3) by (induction ys) (auto simp: less_eq_prod_def)
  moreover have "sorted (List.product xs ys)" using Cons by simp
  moreover have "\<forall>p\<in>set (map (Pair x) ys). \<forall>q\<in>set (List.product xs ys). p \<le> q"
    using Cons.prems(1,2) by (fastforce simp: less_eq_prod_def)
  ultimately show ?case by (simp add: sorted_append)
qed

lemma first_max_sorted:
  fixes cells :: "(nat \<times> nat) list"
  assumes "sorted cells"
  shows "first_max enc init cells = init
      \<or> (\<exists>c\<in>set cells. first_max enc init cells = enc c \<and> size3 init < size3 (enc c)
            \<and> (\<forall>c'\<in>set cells. c' < c \<longrightarrow> size3 (enc c') < size3 (enc c)))"
proof -
  from first_max_cases[of init enc cells] consider "first_max enc init cells = init"
    | pre c post where "cells = pre @ c # post" "first_max enc init cells = enc c"
        "size3 init < size3 (enc c)" "\<forall>c'\<in>set pre. size3 (enc c') < size3 (enc c)"
    by blast
  then show ?thesis
  proof cases
    case 1
    then show ?thesis by simp
  next
    case 2
    from assms 2(1) have "\<forall>x\<in>set post. c \<le> x" by (simp add: sorted_append)
    then have "\<forall>c'\<in>set cells. c' < c \<longrightarrow> c' \<in> set pre"
      using 2(1) by auto
    with 2 show ?thesis by auto
  qed
qed

text \<open>
  Equal strings: no run is longer than the one on the diagonal, whether or not an element
  is popular, and the match found is the whole string.
\<close>

lemma run_diagonal:
  "run a a 0 0 i j \<le> run a a 0 0 i i \<and> run a a 0 0 i j \<le> run a a 0 0 j j"
proof (induction i arbitrary: j)
  case 0
  show ?case
    by (subst (1 2 3) run_unfold, subst (3) run_unfold) auto
next
  case (Suc i)
  show ?case
  proof (cases "a ! Suc i = a ! j \<and> \<not> popular a (a ! j)")
    case False
    then have "run a a 0 0 (Suc i) j = 0" by (rule run_zero)
    then show ?thesis by simp
  next
    case True
    then have ii: "run a a 0 0 (Suc i) (Suc i) = run a a 0 0 i i + 1"
      by (subst run_unfold) simp
    show ?thesis
    proof (cases j)
      case 0
      with True have "run a a 0 0 (Suc i) j = 1" by (subst run_unfold) simp
      moreover from True 0 have "run a a 0 0 j j = 1" by (subst run_unfold) simp
      ultimately show ?thesis using ii by simp
    next
      case (Suc j')
      with True have "run a a 0 0 (Suc i) j = run a a 0 0 i j' + 1"
        by (subst run_unfold) simp
      moreover from True Suc have "run a a 0 0 j j = run a a 0 0 j' j' + 1"
        by (subst run_unfold) simp
      ultimately show ?thesis using ii Suc.IH[of j'] by simp
    qed
  qed
qed

lemma best_on_diagonal:
  fixes a :: string
  defines "B \<equiv> first_max (enc_end a a 0 0) (0, 0, 0) (List.product [0..<length a] [0..<length a])"
  shows "fst B = fst (snd B)"
proof -
  have srt: "sorted (List.product [0..<length a] [0..<length a])"
    by (rule sorted_product) simp_all
  from first_max_sorted[OF srt, of "enc_end a a 0 0" "(0, 0, 0)"]
  consider "B = (0, 0, 0)"
    | c where "c \<in> set (List.product [0..<length a] [0..<length a])" "B = enc_end a a 0 0 c"
        "\<forall>c'\<in>set (List.product [0..<length a] [0..<length a]). c' < c \<longrightarrow>
           size3 (enc_end a a 0 0 c') < size3 (enc_end a a 0 0 c)"
    unfolding B_def by blast
  then show ?thesis
  proof cases
    case 1
    then show ?thesis by simp
  next
    case 2
    obtain i j where c: "c = (i, j)" by (cases c)
    with 2(1) have ij: "i < length a" "j < length a" by auto
    have "i = j"
    proof (rule ccontr)
      assume ne: "i \<noteq> j"
      define d where "d = (min i j, min i j)"
      have "d \<in> set (List.product [0..<length a] [0..<length a])" using ij by (auto simp: d_def)
      moreover have "d < c" using ne by (auto simp: d_def c less_prod_def min_def)
      ultimately have "size3 (enc_end a a 0 0 d) < size3 (enc_end a a 0 0 c)" using 2(3) by blast
      then have "run a a 0 0 (min i j) (min i j) < run a a 0 0 i j" by (simp add: d_def c)
      with run_diagonal[of a i j] show False by (auto simp: min_def split: if_splits)
    qed
    with 2(2) c show ?thesis by (simp add: enc_end_def)
  qed
qed


lemma extend_left_diagonal:
  "extend_left a a 0 0 False (d, d, k) = (0, 0, k + d)"
proof (induction d arbitrary: k)
  case 0
  show ?case by (subst extend_left.simps) simp
next
  case (Suc d)
  show ?case
    by (subst extend_left.simps) (simp add: isbjunk_def Suc.IH)
qed

lemma extend_right_diagonal:
  "k \<le> length a \<Longrightarrow> extend_right a a (length a) (length a) False (0, 0, k) = (0, 0, length a)"
proof (induction "length a - k" arbitrary: k)
  case 0
  then show ?case by (subst extend_right.simps) simp
next
  case (Suc m)
  then have "k < length a" by simp
  moreover from Suc have "m = length a - (k + 1)" "k + 1 \<le> length a" by simp_all
  ultimately show ?case
    using Suc.hyps(1)[of "k + 1"]
    by (subst extend_right.simps) (simp add: isbjunk_def)
qed

lemma find_longest_match_equal:
  "find_longest_match a a 0 (length a) 0 (length a) = (0, 0, length a)"
proof -
  define B where "B = first_max (enc_end a a 0 0) (0, 0, 0) (List.product [0..<length a] [0..<length a])"
  have scan: "foldl (scan_row a a 0 (length a)) (Map.empty, (0, 0, 0)) [0..<length a]
      = (row_lengths a a 0 0 (length a) (length a), B)"
    unfolding B_def by (rule scan_rows_characterised) simp_all
  obtain d e k where B: "B = (d, e, k)" by (cases B) auto
  from best_on_diagonal[of a] have "e = d" by (simp add: B_def[symmetric] B)
  from scan_rows_bounds[OF _ scan[unfolded B]] have "d + k \<le> length a" by simp
  then show ?thesis
    by (simp add: find_longest_match_def scan B \<open>e = d\<close> extend_left_diagonal
          extend_right_diagonal)
qed

text \<open>
  The ratio only needs the sum of the sizes of the blocks, which sorting and merging
  adjacent blocks leave unchanged.
\<close>

lemma collapse_adjacent_sum:
  "sum_list (map (\<lambda>(i, j, k). k) (collapse_adjacent (i1, j1, k1) non_adjacent blocks))
     = sum_list (map (\<lambda>(i, j, k). k) non_adjacent) + k1 + sum_list (map (\<lambda>(i, j, k). k) blocks)"
  by (induction "(i1, j1, k1)" non_adjacent blocks arbitrary: i1 j1 k1
      rule: collapse_adjacent.induct) auto

lemma sum_list_insort:
  "sum_list (map f (insort x xs)) = f x + sum_list (map f xs)"
  for f :: "'a::linorder \<Rightarrow> nat"
  by (induction xs) auto

lemma sum_list_sort:
  "sum_list (map f (sort xs)) = sum_list (map f xs)"
  for f :: "'a::linorder \<Rightarrow> nat"
  by (induction xs) (auto simp: sum_list_insort)

lemma ratio_matches:
  "ratio a b = calculate_ratio
     (sum_list (map (\<lambda>(i, j, k). k) (matching_blocks_loop a b [(0, length a, 0, length b)] [])))
     (length a + length b)"
  by (simp add: ratio_def get_matching_blocks_def Let_def collapse_adjacent_sum sum_list_sort)

lemma ratio_equal: "ratio a a = 1"
proof (cases "a = []")
  case True
  then show ?thesis by (simp add: ratio_empty_both)
next
  case False
  then have "matching_blocks_loop a a [(0, length a, 0, length a)] [] = [(0, 0, length a)]"
    by (simp add: matching_blocks_loop.simps find_longest_match_equal)
  with False show ?thesis by (simp add: ratio_matches calculate_ratio_def)
qed

text \<open>What a longest matching block is.\<close>

definition block :: "'a list \<Rightarrow> 'a list \<Rightarrow> nat \<Rightarrow> nat \<Rightarrow> nat \<Rightarrow> nat \<Rightarrow> match \<Rightarrow> bool" where
  "block a b alo ahi blo bhi m \<longleftrightarrow>
     (case m of (i, j, k) \<Rightarrow>
        alo \<le> i \<and> i + k \<le> ahi \<and> blo \<le> j \<and> j + k \<le> bhi \<and> (\<forall>t<k. a ! (i + t) = b ! (j + t)))"

definition first_longest :: "'a list \<Rightarrow> 'a list \<Rightarrow> nat \<Rightarrow> nat \<Rightarrow> nat \<Rightarrow> nat \<Rightarrow> match \<Rightarrow> bool" where
  "first_longest a b alo ahi blo bhi m \<longleftrightarrow>
     block a b alo ahi blo bhi m
     \<and> (\<forall>m'. block a b alo ahi blo bhi m' \<longrightarrow> size3 m' \<le> size3 m)
     \<and> (size3 m = 0 \<longrightarrow> m = (alo, blo, 0))
     \<and> (\<forall>i' j'. 0 < size3 m \<and> block a b alo ahi blo bhi (i', j', size3 m)
           \<longrightarrow> (fst m, fst (snd m)) \<le> (i', j'))"

lemma first_longest_unique:
  assumes "first_longest a b alo ahi blo bhi m" and "first_longest a b alo ahi blo bhi m'"
  shows "m = m'"
proof -
  obtain i j k where m: "m = (i, j, k)" by (cases m) auto
  obtain i' j' k' where m': "m' = (i', j', k')" by (cases m') auto
  from assms have "k' \<le> k" "k \<le> k'"
    unfolding first_longest_def m m' by (metis size3_simp)+
  then have k: "k' = k" by simp
  show ?thesis
  proof (cases "k = 0")
    case True
    with assms k show ?thesis unfolding first_longest_def m m' by simp
  next
    case False
    from assms(1) have b1: "block a b alo ahi blo bhi (i, j, k)"
      and f1: "\<forall>i' j'. block a b alo ahi blo bhi (i', j', k) \<longrightarrow> (i, j) \<le> (i', j')"
      using False unfolding first_longest_def m by simp_all
    from assms(2) have b2: "block a b alo ahi blo bhi (i', j', k)"
      and f2: "\<forall>i j. block a b alo ahi blo bhi (i, j, k) \<longrightarrow> (i', j') \<le> (i, j)"
      using False unfolding first_longest_def m' k by simp_all
    from f1 b2 have "(i, j) \<le> (i', j')" by blast
    moreover from f2 b1 have "(i', j') \<le> (i, j)" by blast
    ultimately have "(i, j) = (i', j')" by (rule antisym)
    with k show ?thesis by (simp add: m m')
  qed
qed

text \<open>The specification's longest common substring is the first longest block.\<close>

lemma common_prefix_le:
  "common_prefix xs ys \<le> length xs \<and> common_prefix xs ys \<le> length ys"
  by (induction xs ys rule: common_prefix.induct) auto

lemma common_prefix_nth:
  "t < common_prefix xs ys \<Longrightarrow> xs ! t = ys ! t"
proof (induction xs ys arbitrary: t rule: common_prefix.induct)
  case (1 x xs y ys)
  then show ?case by (cases t) (auto split: if_splits)
qed auto

lemma common_prefix_max:
  "m \<le> length xs \<Longrightarrow> m \<le> length ys \<Longrightarrow> \<forall>t<m. xs ! t = ys ! t \<Longrightarrow> m \<le> common_prefix xs ys"
proof (induction xs ys arbitrary: m rule: common_prefix.induct)
  case (1 x xs y ys)
  show ?case
  proof (cases m)
    case 0
    then show ?thesis by simp
  next
    case (Suc m')
    with "1.prems"(3) have xy: "x = y" by auto
    have "\<forall>t<m'. xs ! t = ys ! t"
    proof (intro allI impI)
      fix t assume "t < m'"
      then have "Suc t < m" using Suc by simp
      with "1.prems"(3) have "(x # xs) ! Suc t = (y # ys) ! Suc t" by blast
      then show "xs ! t = ys ! t" by simp
    qed
    with "1.IH"[OF xy, of m'] "1.prems"(1,2) Suc have "m' \<le> common_prefix xs ys" by simp
    with xy Suc show ?thesis by simp
  qed
qed auto

lemma block_common_prefix:
  assumes "i < length a" "j < length b"
  shows "block a b 0 (length a) 0 (length b) (i, j, m)
     \<longleftrightarrow> m \<le> common_prefix (drop i a) (drop j b)"
proof
  assume "block a b 0 (length a) 0 (length b) (i, j, m)"
  then have "m \<le> length (drop i a)" "m \<le> length (drop j b)"
    "\<forall>t<m. drop i a ! t = drop j b ! t"
    using assms by (auto simp: block_def)
  then show "m \<le> common_prefix (drop i a) (drop j b)" by (rule common_prefix_max)
next
  assume m: "m \<le> common_prefix (drop i a) (drop j b)"
  with common_prefix_le[of "drop i a" "drop j b"] have "i + m \<le> length a" "j + m \<le> length b"
    using assms by auto
  moreover have "\<forall>t<m. a ! (i + t) = b ! (j + t)"
  proof (intro allI impI)
    fix t assume "t < m"
    with m have "drop i a ! t = drop j b ! t" by (intro common_prefix_nth) simp
    then show "a ! (i + t) = b ! (j + t)" using assms by simp
  qed
  ultimately show "block a b 0 (length a) 0 (length b) (i, j, m)" by (simp add: block_def)
qed

definition enc_start :: "'a list \<Rightarrow> 'a list \<Rightarrow> nat \<times> nat \<Rightarrow> match" where
  "enc_start a b c = (fst c, snd c, common_prefix (drop (fst c) a) (drop (snd c) b))"

lemma longest_common_substring_first_max:
  "longest_common_substring a b
     = first_max (enc_start a b) (0, 0, 0) (List.product [0..<length a] [0..<length b])"
proof -
  have "(\<lambda>(besti, bestj, bestsize) (i, j).
              let k = common_prefix (drop i a) (drop j b)
              in if k > bestsize then (i, j, k) else (besti, bestj, bestsize))
      = (\<lambda>best c. if size3 (enc_start a b c) > size3 best then enc_start a b c else best)"
    by (intro ext) (auto simp: Let_def enc_start_def split: prod.splits)
  then show ?thesis by (simp only: longest_common_substring_def first_max_def)
qed

lemma sorted_cells: "sorted (List.product [lo..<hi] [lo'..<hi'])"
  by (rule sorted_product) simp_all

lemma longest_common_substring_first_longest:
  "first_longest a b 0 (length a) 0 (length b) (longest_common_substring a b)"
proof -
  define cells where "cells = List.product [0..<length a] [0..<length b]"
  define B where "B = first_max (enc_start a b) (0, 0, 0) cells"
  have lcs: "longest_common_substring a b = B"
    by (simp add: longest_common_substring_first_max B_def cells_def)
  have all: "\<forall>c\<in>set cells. size3 (enc_start a b c) \<le> size3 B"
    using first_max_cases[of "(0, 0, 0)" "enc_start a b" cells] by (simp add: B_def)
  have K: "(i', j') \<in> set cells \<and> k' \<le> size3 (enc_start a b (i', j'))"
    if "block a b 0 (length a) 0 (length b) (i', j', k')" "0 < k'" for i' j' k'
  proof -
    from that have lt: "i' < length a" "j' < length b" by (auto simp: block_def)
    with that(1) show ?thesis
      by (simp add: block_common_prefix cells_def enc_start_def)
  qed
  have maxi: "size3 m' \<le> size3 B" if "block a b 0 (length a) 0 (length b) m'" for m'
  proof -
    obtain i' j' k' where m': "m' = (i', j', k')" by (cases m') auto
    show ?thesis
    proof (cases "k' = 0")
      case True
      then show ?thesis by (simp add: m')
    next
      case False
      with K[of i' j' k'] that all show ?thesis by (fastforce simp: m')
    qed
  qed
  have "sorted cells" unfolding cells_def by (rule sorted_cells)
  from first_max_sorted[OF this, of "enc_start a b" "(0, 0, 0)"]
  consider "B = (0, 0, 0)"
    | c where "c \<in> set cells" "B = enc_start a b c" "0 < size3 (enc_start a b c)"
        "\<forall>c'\<in>set cells. c' < c \<longrightarrow> size3 (enc_start a b c') < size3 (enc_start a b c)"
    unfolding B_def by auto
  then have "first_longest a b 0 (length a) 0 (length b) B"
  proof cases
    case 1
    then show ?thesis using maxi by (auto simp: first_longest_def block_def)
  next
    case 2
    obtain i j where c: "c = (i, j)" by (cases c)
    define k where "k = common_prefix (drop i a) (drop j b)"
    have B: "B = (i, j, k)" by (simp add: 2(2) c enc_start_def k_def)
    from 2(1) have lt: "i < length a" "j < length b" by (auto simp: c cells_def)
    have kpos: "0 < k" using 2(3) by (simp add: c enc_start_def k_def)
    have blk: "block a b 0 (length a) 0 (length b) (i, j, k)"
      using lt by (simp add: block_common_prefix k_def)
    have first: "(i, j) \<le> (i', j')" if "block a b 0 (length a) 0 (length b) (i', j', k)" for i' j'
    proof (rule ccontr)
      assume "\<not> (i, j) \<le> (i', j')"
      then have "(i', j') < c" by (simp only: c not_le)
      moreover from K[OF that kpos] have in': "(i', j') \<in> set cells"
        and ge: "k \<le> size3 (enc_start a b (i', j'))" by simp_all
      ultimately have "size3 (enc_start a b (i', j')) < size3 (enc_start a b c)"
        using 2(4) by blast
      with ge show False by (simp add: c enc_start_def k_def)
    qed
    show ?thesis
      unfolding first_longest_def B using blk maxi kpos first by (simp add: B)
  qed
  then show ?thesis by (simp add: lcs)
qed


text \<open>Without popular elements, the run lengths are those of the longest block ending at a cell.\<close>

lemma run_block:
  assumes "\<forall>c. \<not> popular b c"
  shows "alo \<le> i \<Longrightarrow> blo \<le> j \<Longrightarrow>
     run a b alo blo i j \<le> i + 1 - alo \<and> run a b alo blo i j \<le> j + 1 - blo
     \<and> (\<forall>t<run a b alo blo i j. a ! (i - t) = b ! (j - t))"
proof (induction i arbitrary: j)
  case 0
  then show ?case using assms by (auto simp: run.simps)
next
  case (Suc i)
  show ?case
  proof (cases "a ! Suc i = b ! j")
    case False
    then show ?thesis by (simp add: run.simps)
  next
    case True
    note eq = this
    show ?thesis
    proof (cases "alo < Suc i \<and> blo < j")
      case False
      with eq assms have "run a b alo blo (Suc i) j = 1" by (auto simp: run.simps)
      with eq Suc.prems show ?thesis by auto
    next
      case True
      define r where "r = run a b alo blo i (j - 1)"
      from True eq assms have run: "run a b alo blo (Suc i) j = r + 1"
        by (simp add: run.simps r_def)
      from True have "alo \<le> i" "blo \<le> j - 1" by auto
      from Suc.IH[OF this] have
        IH: "r \<le> i + 1 - alo" "r \<le> j - 1 + 1 - blo" "\<forall>t<r. a ! (i - t) = b ! (j - 1 - t)"
        by (simp_all add: r_def)
      have "a ! (Suc i - t) = b ! (j - t)" if "t < r + 1" for t
      proof (cases t)
        case 0
        with eq show ?thesis by simp
      next
        case (Suc t')
        with that have "t' < r" by simp
        with IH(3) have "a ! (i - t') = b ! (j - 1 - t')" by blast
        then show ?thesis by (simp add: Suc)
      qed
      with IH(1,2) True show ?thesis unfolding run by auto
    qed
  qed
qed

lemma run_max:
  assumes "\<forall>c. \<not> popular b c"
  shows "m \<le> i + 1 - alo \<Longrightarrow> m \<le> j + 1 - blo \<Longrightarrow> \<forall>t<m. a ! (i - t) = b ! (j - t) \<Longrightarrow>
     m \<le> run a b alo blo i j"
proof (induction i arbitrary: j m)
  case 0
  show ?case
  proof (cases m)
    case 0
    then show ?thesis by simp
  next
    case (Suc m')
    with "0.prems"(3) have "a ! 0 = b ! j" by auto
    with assms have "run a b alo blo 0 j = 1" by (simp add: run.simps)
    with "0.prems"(1) show ?thesis by simp
  qed
next
  case (Suc i)
  show ?case
  proof (cases m)
    case 0
    then show ?thesis by simp
  next
    case m: (Suc m')
    with Suc.prems(3) have eq: "a ! Suc i = b ! j" by auto
    show ?thesis
    proof (cases "alo < Suc i \<and> blo < j")
      case False
      with eq assms have "run a b alo blo (Suc i) j = 1" by (auto simp: run.simps)
      with False Suc.prems(1,2) show ?thesis by auto
    next
      case True
      with eq assms have run: "run a b alo blo (Suc i) j = run a b alo blo i (j - 1) + 1"
        by (simp add: run.simps)
      have "\<forall>t<m'. a ! (i - t) = b ! (j - 1 - t)"
      proof (intro allI impI)
        fix t assume "t < m'"
        then have "Suc t < m" by (simp add: m)
        with Suc.prems(3) have "a ! (Suc i - Suc t) = b ! (j - Suc t)" by blast
        then show "a ! (i - t) = b ! (j - 1 - t)" by simp
      qed
      moreover have "m' \<le> i + 1 - alo" "m' \<le> j - 1 + 1 - blo"
        using Suc.prems(1,2) True m by auto
      ultimately have "m' \<le> run a b alo blo i (j - 1)" using Suc.IH by blast
      then show ?thesis by (simp add: run m)
    qed
  qed
qed

lemma block_end:
  assumes "\<forall>c. \<not> popular b c" and "block a b alo ahi blo bhi (i, j, k)" and "0 < k"
  shows "(i + k - 1, j + k - 1) \<in> set (List.product [alo..<ahi] [blo..<bhi])
     \<and> k \<le> run a b alo blo (i + k - 1) (j + k - 1)"
proof -
  from assms(2) have b: "alo \<le> i" "i + k \<le> ahi" "blo \<le> j" "j + k \<le> bhi"
    "\<forall>t<k. a ! (i + t) = b ! (j + t)" by (auto simp: block_def)
  have "\<forall>t<k. a ! (i + k - 1 - t) = b ! (j + k - 1 - t)"
  proof (intro allI impI)
    fix t assume "t < k"
    then have "k - 1 - t < k" by simp
    with b(5) have "a ! (i + (k - 1 - t)) = b ! (j + (k - 1 - t))" by blast
    moreover have "i + (k - 1 - t) = i + k - 1 - t" "j + (k - 1 - t) = j + k - 1 - t"
      using \<open>t < k\<close> by auto
    ultimately show "a ! (i + k - 1 - t) = b ! (j + k - 1 - t)" by simp
  qed
  moreover have "k \<le> i + k - 1 + 1 - alo" "k \<le> j + k - 1 + 1 - blo"
    using b(1,3) assms(3) by auto
  ultimately have "k \<le> run a b alo blo (i + k - 1) (j + k - 1)"
    using run_max[OF assms(1)] by blast
  with b assms(3) show ?thesis by auto
qed

lemma block_enc_end:
  assumes "\<forall>c. \<not> popular b c" and "alo \<le> i" "i < ahi" "blo \<le> j" "j < bhi"
  shows "block a b alo ahi blo bhi (enc_end a b alo blo (i, j))"
proof -
  define k where "k = run a b alo blo i j"
  from run_block[OF assms(1,2,4), of a] have
    r: "k \<le> i + 1 - alo" "k \<le> j + 1 - blo" "\<forall>t<k. a ! (i - t) = b ! (j - t)"
    by (simp_all add: k_def)
  have "\<forall>t<k. a ! (i + 1 - k + t) = b ! (j + 1 - k + t)"
  proof (intro allI impI)
    fix t assume t: "t < k"
    then have "k - 1 - t < k" by simp
    with r(3) have "a ! (i - (k - 1 - t)) = b ! (j - (k - 1 - t))" by blast
    moreover have "i - (k - 1 - t) = i + 1 - k + t" "j - (k - 1 - t) = j + 1 - k + t"
      using t r(1,2) assms(2,4) by auto
    ultimately show "a ! (i + 1 - k + t) = b ! (j + 1 - k + t)" by (simp only:)
  qed
  with r(1,2) assms(2-5) show ?thesis
    by (auto simp: block_def enc_end_def k_def[symmetric])
qed

lemma first_max_first_longest:
  assumes np: "\<forall>c. \<not> popular b c" and "alo \<le> ahi" "blo \<le> bhi"
  shows "first_longest a b alo ahi blo bhi
     (first_max (enc_end a b alo blo) (alo, blo, 0) (List.product [alo..<ahi] [blo..<bhi]))"
proof -
  define cells where "cells = List.product [alo..<ahi] [blo..<bhi]"
  define B where "B = first_max (enc_end a b alo blo) (alo, blo, 0) cells"
  have all: "\<forall>c\<in>set cells. run a b alo blo (fst c) (snd c) \<le> size3 B"
    using first_max_cases[of "(alo, blo, 0)" "enc_end a b alo blo" cells] by (simp add: B_def)
  have maxi: "size3 m' \<le> size3 B" if "block a b alo ahi blo bhi m'" for m'
  proof -
    obtain i' j' k' where m': "m' = (i', j', k')" by (cases m') auto
    show ?thesis
    proof (cases "k' = 0")
      case True
      then show ?thesis by (simp add: m')
    next
      case False
      with block_end[OF np, of a alo ahi blo bhi i' j' k'] that
      have "(i' + k' - 1, j' + k' - 1) \<in> set cells"
        "k' \<le> run a b alo blo (i' + k' - 1) (j' + k' - 1)"
        by (simp_all add: m' cells_def)
      with all show ?thesis by (fastforce simp: m')
    qed
  qed
  have "sorted cells" unfolding cells_def by (rule sorted_cells)
  from first_max_sorted[OF this, of "enc_end a b alo blo" "(alo, blo, 0)"]
  consider "B = (alo, blo, 0)"
    | c where "c \<in> set cells" "B = enc_end a b alo blo c" "0 < size3 (enc_end a b alo blo c)"
        "\<forall>c'\<in>set cells. c' < c \<longrightarrow> size3 (enc_end a b alo blo c') < size3 (enc_end a b alo blo c)"
    unfolding B_def by auto
  then have "first_longest a b alo ahi blo bhi B"
  proof cases
    case 1
    then show ?thesis using maxi assms(2,3) by (auto simp: first_longest_def block_def)
  next
    case 2
    obtain i j where c: "c = (i, j)" by (cases c)
    define k where "k = run a b alo blo i j"
    have B: "B = (i + 1 - k, j + 1 - k, k)" by (simp add: 2(2) c enc_end_def k_def)
    from 2(1) have rng: "alo \<le> i" "i < ahi" "blo \<le> j" "j < bhi" by (auto simp: c cells_def)
    have kpos: "0 < k" using 2(3) by (simp add: c k_def)
    from run_block[OF np rng(1,3), of a] have kle: "k \<le> i + 1" "k \<le> j + 1"
      by (auto simp: k_def)
    have blk: "block a b alo ahi blo bhi B"
      unfolding 2(2) c by (rule block_enc_end[OF np rng])
    have first: "(i + 1 - k, j + 1 - k) \<le> (i', j')" if "block a b alo ahi blo bhi (i', j', k)" for i' j'
    proof (rule ccontr)
      assume "\<not> (i + 1 - k, j + 1 - k) \<le> (i', j')"
      then have "(i', j') < (i + 1 - k, j + 1 - k)" by (simp only: not_le)
      then have "(i' + k - 1, j' + k - 1) < c"
        using kpos kle by (auto simp: c less_prod_def)
      moreover from block_end[OF np that kpos] have "(i' + k - 1, j' + k - 1) \<in> set cells"
        and ge: "k \<le> run a b alo blo (i' + k - 1) (j' + k - 1)" by (simp_all add: cells_def)
      ultimately have "size3 (enc_end a b alo blo (i' + k - 1, j' + k - 1))
          < size3 (enc_end a b alo blo c)"
        using 2(4) by blast
      with ge show False by (simp add: c k_def)
    qed
    show ?thesis
      unfolding first_longest_def using blk maxi kpos first by (simp add: B)
  qed
  then show ?thesis by (simp add: B_def cells_def)
qed

lemma first_longest_not_extended:
  assumes "first_longest a b alo ahi blo bhi m"
  shows "extend_left a b alo blo False m = m" and "extend_right a b ahi bhi False m = m"
proof -
  obtain i j k where m: "m = (i, j, k)" by (cases m) auto
  from assms have blk: "alo \<le> i" "i + k \<le> ahi" "blo \<le> j" "j + k \<le> bhi"
    "\<forall>t<k. a ! (i + t) = b ! (j + t)"
    and maxi: "\<And>m'. block a b alo ahi blo bhi m' \<Longrightarrow> size3 m' \<le> k"
    by (auto simp: first_longest_def block_def m)
  have "\<not> (alo < i \<and> blo < j \<and> a ! (i - 1) = b ! (j - 1))"
  proof
    assume c: "alo < i \<and> blo < j \<and> a ! (i - 1) = b ! (j - 1)"
    have "a ! (i - 1 + t) = b ! (j - 1 + t)" if "t < k + 1" for t
    proof (cases t)
      case 0
      with c show ?thesis by simp
    next
      case (Suc t')
      with that have "t' < k" by simp
      with blk(5) have "a ! (i + t') = b ! (j + t')" by blast
      moreover have "i - 1 + t = i + t'" "j - 1 + t = j + t'" using c Suc by auto
      ultimately show ?thesis by simp
    qed
    with c blk have "block a b alo ahi blo bhi (i - 1, j - 1, k + 1)"
      by (auto simp: block_def)
    from maxi[OF this] show False by simp
  qed
  then show "extend_left a b alo blo False m = m"
    unfolding m by (subst extend_left.simps) (auto simp: isbjunk_def)
  have "\<not> (i + k < ahi \<and> j + k < bhi \<and> a ! (i + k) = b ! (j + k))"
  proof
    assume c: "i + k < ahi \<and> j + k < bhi \<and> a ! (i + k) = b ! (j + k)"
    have "a ! (i + t) = b ! (j + t)" if "t < k + 1" for t
    proof (cases "t = k")
      case True
      with c show ?thesis by simp
    next
      case False
      with that have "t < k" by simp
      with blk(5) show ?thesis by blast
    qed
    with c blk have "block a b alo ahi blo bhi (i, j, k + 1)"
      by (auto simp: block_def)
    from maxi[OF this] show False by simp
  qed
  then show "extend_right a b ahi bhi False m = m"
    unfolding m by (subst extend_right.simps) (auto simp: isbjunk_def)
qed

lemma find_longest_match_first_longest:
  assumes "\<forall>c. \<not> popular b c" and "alo \<le> ahi" "blo \<le> bhi" "bhi \<le> length b"
  shows "first_longest a b alo ahi blo bhi (find_longest_match a b alo ahi blo bhi)"
proof -
  define B where
    "B = first_max (enc_end a b alo blo) (alo, blo, 0) (List.product [alo..<ahi] [blo..<bhi])"
  have fl: "first_longest a b alo ahi blo bhi B"
    unfolding B_def by (rule first_max_first_longest[OF assms(1-3)])
  obtain i j k where B: "B = (i, j, k)" by (cases B) auto
  have scan: "foldl (scan_row a b blo bhi) (Map.empty, (alo, blo, 0)) [alo..<ahi]
      = (row_lengths a b alo blo bhi ahi, B)"
    unfolding B_def by (rule scan_rows_characterised[OF assms(4,2)])
  have "find_longest_match a b alo ahi blo bhi = B"
    using first_longest_not_extended[OF fl]
    by (simp add: find_longest_match_def scan B)
  with fl show ?thesis by simp
qed


text \<open>Ranges of the two strings and the slices they stand for.\<close>

definition slice :: "'a list \<Rightarrow> nat \<Rightarrow> nat \<Rightarrow> 'a list" where
  "slice a lo hi = take (hi - lo) (drop lo a)"

lemma length_slice: "hi \<le> length a \<Longrightarrow> length (slice a lo hi) = hi - lo"
  by (simp add: slice_def)

lemma slice_nth: "hi \<le> length a \<Longrightarrow> lo + t < hi \<Longrightarrow> slice a lo hi ! t = a ! (lo + t)"
  by (simp add: slice_def)

lemma slice_all: "slice a 0 (length a) = a"
  by (simp add: slice_def)

lemma slice_empty: "slice a lo lo = []"
  by (simp add: slice_def)

lemma take_slice: "i \<le> hi - lo \<Longrightarrow> take i (slice a lo hi) = slice a lo (lo + i)"
  by (simp add: slice_def min_def)

lemma drop_slice: "drop n (slice a lo hi) = slice a (lo + n) hi"
  by (simp add: slice_def drop_take add.commute)

lemma block_shift:
  assumes "alo \<le> ahi" "ahi \<le> length a" "blo \<le> bhi" "bhi \<le> length b"
  shows "block (slice a alo ahi) (slice b blo bhi) 0 (ahi - alo) 0 (bhi - blo) (i, j, k)
     \<longleftrightarrow> block a b alo ahi blo bhi (alo + i, blo + j, k)"
proof -
  have "(\<forall>t<k. slice a alo ahi ! (i + t) = slice b blo bhi ! (j + t))
      \<longleftrightarrow> (\<forall>t<k. a ! (alo + i + t) = b ! (blo + j + t))"
    if "i + k \<le> ahi - alo" "j + k \<le> bhi - blo"
  proof -
    have "slice a alo ahi ! (i + t) = a ! (alo + i + t)
        \<and> slice b blo bhi ! (j + t) = b ! (blo + j + t)" if "t < k" for t
      using that \<open>i + k \<le> ahi - alo\<close> \<open>j + k \<le> bhi - blo\<close> assms
      by (simp add: slice_nth add.assoc)
    then show ?thesis by simp
  qed
  moreover have "i + k \<le> ahi - alo \<longleftrightarrow> alo + i + k \<le> ahi"
    "j + k \<le> bhi - blo \<longleftrightarrow> blo + j + k \<le> bhi"
    using assms by auto
  ultimately show ?thesis by (auto simp: block_def)
qed

lemma first_longest_shift:
  assumes r: "alo \<le> ahi" "ahi \<le> length a" "blo \<le> bhi" "bhi \<le> length b"
    and fl: "first_longest (slice a alo ahi) (slice b blo bhi) 0 (ahi - alo) 0 (bhi - blo) (i, j, k)"
  shows "first_longest a b alo ahi blo bhi (alo + i, blo + j, k)"
proof -
  note sh = block_shift[OF r]
  from fl have blk: "block a b alo ahi blo bhi (alo + i, blo + j, k)"
    by (simp add: first_longest_def sh)
  have unshift: "block (slice a alo ahi) (slice b blo bhi) 0 (ahi - alo) 0 (bhi - blo)
      (i' - alo, j' - blo, k')" if "block a b alo ahi blo bhi (i', j', k')" for i' j' k'
  proof -
    from that have "alo \<le> i'" "blo \<le> j'" by (auto simp: block_def)
    with that show ?thesis by (simp add: sh)
  qed
  have maxi: "size3 m' \<le> k" if "block a b alo ahi blo bhi m'" for m'
  proof -
    obtain i' j' k' where m': "m' = (i', j', k')" by (cases m') auto
    from unshift[OF that[unfolded m']] fl have "size3 (i' - alo, j' - blo, k') \<le> size3 (i, j, k)"
      unfolding first_longest_def by blast
    then show ?thesis by (simp add: m')
  qed
  have zero: "k = 0 \<Longrightarrow> i = 0 \<and> j = 0"
    using fl by (simp add: first_longest_def)
  have first: "(alo + i, blo + j) \<le> (i', j')"
    if "0 < k" "block a b alo ahi blo bhi (i', j', k)" for i' j'
  proof -
    from that(2) have lo: "alo \<le> i'" "blo \<le> j'" by (auto simp: block_def)
    from unshift[OF that(2)] fl that(1) have "(i, j) \<le> (i' - alo, j' - blo)"
      unfolding first_longest_def by simp
    with lo show ?thesis by (auto simp: less_eq_prod_def)
  qed
  show ?thesis
    unfolding first_longest_def using blk maxi zero first by auto
qed

lemma find_longest_match_slice:
  assumes "\<forall>c. \<not> popular b c"
    and "alo \<le> ahi" "ahi \<le> length a" "blo \<le> bhi" "bhi \<le> length b"
    and lcs: "longest_common_substring (slice a alo ahi) (slice b blo bhi) = (i, j, k)"
  shows "find_longest_match a b alo ahi blo bhi = (alo + i, blo + j, k)"
    and "i + k \<le> ahi - alo" and "j + k \<le> bhi - blo"
proof -
  have fl: "first_longest (slice a alo ahi) (slice b blo bhi) 0 (ahi - alo) 0 (bhi - blo) (i, j, k)"
    using longest_common_substring_first_longest[of "slice a alo ahi" "slice b blo bhi"]
    by (simp add: lcs length_slice assms(3,5))
  from first_longest_unique[OF find_longest_match_first_longest[OF assms(1,2,4,5)]
      first_longest_shift[OF assms(2-5) fl]]
  show "find_longest_match a b alo ahi blo bhi = (alo + i, blo + j, k)" .
  from fl show "i + k \<le> ahi - alo" "j + k \<le> bhi - blo"
    by (auto simp: first_longest_def block_def)
qed

text \<open>The blocks collected by the loop over the queue add up to the matches of the
  specification, range by range.\<close>

lemma product_Nil_right: "List.product xs [] = []"
  by (induction xs) simp_all

lemma ro_matches_Nil_left: "ro_matches [] b = 0"
  by (subst ro_matches.simps) (simp add: longest_common_substring_def)

lemma ro_matches_Nil_right: "ro_matches a [] = 0"
  by (subst ro_matches.simps) (simp add: longest_common_substring_def product_Nil_right)

definition in_bounds :: "'a list \<Rightarrow> 'a list \<Rightarrow> range \<Rightarrow> bool" where
  "in_bounds a b r \<longleftrightarrow> (case r of (alo, ahi, blo, bhi) \<Rightarrow>
      alo \<le> ahi \<and> ahi \<le> length a \<and> blo \<le> bhi \<and> bhi \<le> length b)"

definition range_matches :: "'a list \<Rightarrow> 'a list \<Rightarrow> range \<Rightarrow> nat" where
  "range_matches a b r = (case r of (alo, ahi, blo, bhi) \<Rightarrow>
      ro_matches (slice a alo ahi) (slice b blo bhi))"

lemma matching_blocks_loop_sum:
  assumes "\<forall>c. \<not> popular b c"
  shows "\<forall>r\<in>set queue. in_bounds a b r \<Longrightarrow>
     sum_list (map size3 (matching_blocks_loop a b queue acc))
       = sum_list (map size3 acc) + sum_list (map (range_matches a b) queue)"
  using assms
proof (induction a b queue acc rule: matching_blocks_loop.induct)
  case (1 a b matching_blocks)
  then show ?case by (simp add: matching_blocks_loop.simps)
next
  case (2 a b alo ahi blo bhi queue matching_blocks)
  note np = "2.prems"(2)
  from "2.prems"(1) have r: "alo \<le> ahi" "ahi \<le> length a" "blo \<le> bhi" "bhi \<le> length b"
    and rest: "\<forall>r\<in>set queue. in_bounds a b r"
    by (simp_all add: in_bounds_def)
  obtain i' j' k where lcs: "longest_common_substring (slice a alo ahi) (slice b blo bhi) = (i', j', k)"
    by (cases "longest_common_substring (slice a alo ahi) (slice b blo bhi)") auto
  define i where "i = alo + i'"
  define j where "j = blo + j'"
  note f = find_longest_match_slice[OF np r lcs]
  have flm: "find_longest_match a b alo ahi blo bhi = (i, j, k)"
    using f(1) by (simp add: i_def j_def)
  have bnd: "i + k \<le> ahi" "j + k \<le> bhi" "alo \<le> i" "blo \<le> j"
    using f(2,3) r by (auto simp: i_def j_def)
  show ?case
  proof (cases "k = 0")
    case True
    have "range_matches a b (alo, ahi, blo, bhi) = 0"
      by (simp add: range_matches_def ro_matches.simps[of "slice a alo ahi"] lcs True)
    moreover have "sum_list (map size3 (matching_blocks_loop a b queue matching_blocks))
        = sum_list (map size3 matching_blocks) + sum_list (map (range_matches a b) queue)"
      using "2.IH"(2)[of i "(j, k)" j k] flm True rest np by simp
    moreover have "matching_blocks_loop a b ((alo, ahi, blo, bhi) # queue) matching_blocks
        = matching_blocks_loop a b queue matching_blocks"
      by (subst matching_blocks_loop.simps) (simp add: flm True)
    ultimately show ?thesis by simp
  next
    case False
    define queue1 where "queue1 = (if alo < i \<and> blo < j then (alo, i, blo, j) # queue else queue)"
    define queue2 where "queue2 = (if i + k < ahi \<and> j + k < bhi then (i + k, ahi, j + k, bhi) # queue1
                          else queue1)"
    have step: "matching_blocks_loop a b ((alo, ahi, blo, bhi) # queue) matching_blocks
        = matching_blocks_loop a b queue2 (matching_blocks @ [(i, j, k)])"
      using False by (subst matching_blocks_loop.simps) (simp add: flm queue1_def queue2_def Let_def)
    have w2: "\<forall>r\<in>set queue2. in_bounds a b r"
      using rest bnd r by (auto simp: queue1_def queue2_def in_bounds_def)
    have IH: "sum_list (map size3 (matching_blocks_loop a b queue2 (matching_blocks @ [(i, j, k)])))
        = sum_list (map size3 (matching_blocks @ [(i, j, k)]))
          + sum_list (map (range_matches a b) queue2)"
      using "2.IH"(1)[of i "(j, k)" j k queue1 queue2] flm False w2 np
      by (simp add: queue1_def queue2_def)
    have left: "take i' (slice a alo ahi) = slice a alo i" "take j' (slice b blo bhi) = slice b blo j"
      using f(2,3) by (simp_all add: take_slice i_def j_def)
    have right: "drop (i' + k) (slice a alo ahi) = slice a (i + k) ahi"
      "drop (j' + k) (slice b blo bhi) = slice b (j + k) bhi"
      by (simp_all add: drop_slice i_def j_def add.assoc)
    have whole: "range_matches a b (alo, ahi, blo, bhi)
        = ro_matches (slice a alo i) (slice b blo j) + k
          + ro_matches (slice a (i + k) ahi) (slice b (j + k) bhi)"
      using False
      by (simp add: range_matches_def ro_matches.simps[of "slice a alo ahi"] lcs left right)
    have l0: "ro_matches (slice a alo i) (slice b blo j) = 0" if "\<not> (alo < i \<and> blo < j)"
    proof -
      from that bnd have "i = alo \<or> j = blo" by auto
      then show ?thesis
        by (auto simp: slice_empty ro_matches_Nil_left ro_matches_Nil_right)
    qed
    have r0: "ro_matches (slice a (i + k) ahi) (slice b (j + k) bhi) = 0"
      if "\<not> (i + k < ahi \<and> j + k < bhi)"
    proof -
      from that bnd have "i + k = ahi \<or> j + k = bhi" by auto
      then show ?thesis
        by (auto simp: slice_empty ro_matches_Nil_left ro_matches_Nil_right)
    qed
    have q1: "sum_list (map (range_matches a b) queue1)
        = ro_matches (slice a alo i) (slice b blo j) + sum_list (map (range_matches a b) queue)"
      using l0 by (auto simp: queue1_def range_matches_def)
    have q2: "sum_list (map (range_matches a b) queue2)
        = ro_matches (slice a (i + k) ahi) (slice b (j + k) bhi)
          + sum_list (map (range_matches a b) queue1)"
      using r0 by (auto simp: queue2_def range_matches_def)
    show ?thesis
      unfolding step IH q2 q1 by (simp add: whole)
  qed
qed

lemma not_popular_short: "length b < 200 \<Longrightarrow> \<not> popular b c"
  by (simp add: popular_def)

lemma ratio_ratcliff_obershelp:
  assumes "length b < 200"
  shows "ratio a b = ratcliff_obershelp a b"
proof -
  have np: "\<forall>c. \<not> popular b c" using assms by (simp add: not_popular_short)
  have sz: "(\<lambda>(i, j, k). k) = size3" by (intro ext) (simp add: size3_def split: prod.splits)
  have "sum_list (map size3 (matching_blocks_loop a b [(0, length a, 0, length b)] []))
      = ro_matches a b"
    using matching_blocks_loop_sum[OF np, of "[(0, length a, 0, length b)]" a "[]"]
    by (simp add: in_bounds_def range_matches_def slice_all)
  then show ?thesis
    by (simp add: ratio_matches sz calculate_ratio_def ratcliff_obershelp_def)
qed

subsection \<open>Claim about the similarity score and the Ratcliff-Obershelp ratio\<close>

text \<open>
  \<^bold>\<open>C3\<close> (as the code has it). When the normalized second name (lower-cased, stripped)
  has fewer than 200 characters, the similarity score of two names equals the
  Ratcliff-Obershelp ratio \<open>2 * M / T\<close> of their normalized forms: \<open>M\<close> is the total
  length of the blocks found by taking the first longest common substring and recursing
  into the remainders left and right of it, \<open>T\<close> the sum of the two normalized lengths.
  At every length, two empty normalized names score 1, one empty and one non-empty
  normalized name score 0, and names that are identical after normalization score 1.
\<close>

theorem calculate_similarity_ratcliff_obershelp:
  "(length (strip (lower name2)) < 200 \<longrightarrow>
      calculate_similarity name1 name2
        = ratcliff_obershelp (strip (lower name1)) (strip (lower name2)))
   \<and> (strip (lower name1) = [] \<and> strip (lower name2) = [] \<longrightarrow>
        calculate_similarity name1 name2 = 1)
   \<and> ((strip (lower name1) = []) \<noteq> (strip (lower name2) = []) \<longrightarrow>
        calculate_similarity name1 name2 = 0)
   \<and> (strip (lower name1) = strip (lower name2) \<longrightarrow> calculate_similarity name1 name2 = 1)"
proof (intro conjI impI)
  assume "length (strip (lower name2)) < 200"
  then show "calculate_similarity name1 name2
      = ratcliff_obershelp (strip (lower name1)) (strip (lower name2))"
    by (simp add: calculate_similarity_def ratio_ratcliff_obershelp)
next
  assume "strip (lower name1) = [] \<and> strip (lower name2) = []"
  then show "calculate_similarity name1 name2 = 1"
    by (simp add: calculate_similarity_def ratio_empty_both)
next
  assume "(strip (lower name1) = []) \<noteq> (strip (lower name2) = [])"
  then show "calculate_similarity name1 name2 = 0"
    by (auto simp: calculate_similarity_def ratio_empty_left ratio_empty_right)
next
  assume "strip (lower name1) = strip (lower name2)"
  then show "calculate_similarity name1 name2 = 1"
    by (simp add: calculate_similarity_def ratio_equal)
qed

theorem calculate_similarity_ratcliff_obershelp_witness:
  "(length (strip (lower '' john d. doe '')) < 200
    \<and> calculate_similarity ''John Doe'' '' john d. doe ''
        = ratcliff_obershelp (strip (lower ''John Doe'')) (strip (lower '' john d. doe ''))
    \<and> ratcliff_obershelp (strip (lower ''John Doe'')) (strip (lower '' john d. doe '')) = 16 / 19)
   \<and> (strip (lower ''  '') = [] \<and> strip (lower []) = [] \<and> calculate_similarity ''  '' [] = 1)
   \<and> (strip (lower ''  '') = [] \<and> strip (lower ''Acme'') \<noteq> []
        \<and> calculate_similarity ''  '' ''Acme'' = 0 \<and> calculate_similarity ''Acme'' ''  '' = 0)
   \<and> (strip (lower '' ACME Corp '') = strip (lower ''acme corp'')
        \<and> calculate_similarity '' ACME Corp '' ''acme corp'' = 1)"
proof -
  have 1: "length (strip (lower '' john d. doe '')) < 200" by code_simp
  have 2: "ratcliff_obershelp (strip (lower ''John Doe'')) (strip (lower '' john d. doe '')) = 16 / 19"
    by code_simp
  have 3: "strip (lower ''  '') = []" "strip (lower []) = []" "strip (lower ''Acme'') \<noteq> []"
    by code_simp+
  have 4: "strip (lower '' ACME Corp '') = strip (lower ''acme corp'')" by code_simp
  from calculate_similarity_ratcliff_obershelp[of "'' john d. doe ''" "''John Doe''"]
       calculate_similarity_ratcliff_obershelp[of "[]" "''  ''"]
       calculate_similarity_ratcliff_obershelp[of "''Acme''" "''  ''"]
       calculate_similarity_ratcliff_obershelp[of "''  ''" "''Acme''"]
       calculate_similarity_ratcliff_obershelp[of "''acme corp''" "'' ACME Corp ''"]
       1 2 3 4
  show ?thesis by simp
qed

text \<open>
  With a second name of 200 characters the two differ. In \<open>x\<close> followed by 199 times
  \<open>a\<close> the letter \<open>a\<close> occurs more than \<open>200 div 100 + 1\<close> times, so the matcher has no
  position for it and finds no block in common with the name \<open>a\<close>; the longest common
  substring is the letter \<open>a\<close>, and the Ratcliff-Obershelp ratio is \<open>2 / 201\<close>.
\<close>

theorem calculate_similarity_ratcliff_obershelp_counterexample:
  "calculate_similarity ''a'' (CHR ''x'' # replicate 199 CHR ''a'') = 0
   \<and> ratcliff_obershelp (strip (lower ''a'')) (strip (lower (CHR ''x'' # replicate 199 CHR ''a'')))
       = 2 / 201"
  by code_simp

end
